theory Spec2Isabelle
  imports Complex_Main "HOL-Library.AList" "HOL-Library.Log_Nat" "HOL-Library.Sublist"
begin

section \<open>Strings\<close>

text \<open>
  A Python \<^verbatim>\<open>str\<close> is modelled as a \<^typ>\<open>string\<close>, each \<^typ>\<open>char\<close> read as the
  code point of the same number (0 to 255).  The predicates below are the builtin tests
  of Python on these code points: \<^verbatim>\<open>str.isspace\<close> (also what \<^verbatim>\<open>\s\<close> matches in a
  \<^verbatim>\<open>str\<close> pattern and what \<^verbatim>\<open>str.strip()\<close> removes) and \<^verbatim>\<open>str.lower\<close>.
\<close>

definition py_isspace :: "char \<Rightarrow> bool" where
  "py_isspace c = (let n = of_char c :: nat in
     (9 \<le> n \<and> n \<le> 13) \<or> (28 \<le> n \<and> n \<le> 32) \<or> n = 133 \<or> n = 160)"

definition py_lower_char :: "char \<Rightarrow> char" where
  "py_lower_char c = (let n = of_char c :: nat in
     if (65 \<le> n \<and> n \<le> 90) \<or> (192 \<le> n \<and> n \<le> 222 \<and> n \<noteq> 215)
     then char_of (n + 32) else c)"

definition str_lower :: "string \<Rightarrow> string" where
  "str_lower s = map py_lower_char s"

definition str_strip :: "string \<Rightarrow> string" where
  "str_strip s = rev (dropWhile py_isspace (rev (dropWhile py_isspace s)))"

definition is_lower_alnum :: "char \<Rightarrow> bool" where
  "is_lower_alnum c = (let n = of_char c :: nat in
     (97 \<le> n \<and> n \<le> 122) \<or> (48 \<le> n \<and> n \<le> 57))"

text \<open>
  \<^verbatim>\<open>re.sub(r"[C]+", " ", s)\<close> for a character class \<open>C\<close>: every maximal run of
  characters of the class is replaced by one space.
\<close>

function re_sub_runs :: "(char \<Rightarrow> bool) \<Rightarrow> string \<Rightarrow> string" where
  "re_sub_runs P [] = []"
| "re_sub_runs P (c # cs) =
     (if P c then CHR '' '' # re_sub_runs P (dropWhile P cs) else c # re_sub_runs P cs)"
  by pat_completeness auto
termination
  by (relation "measure (\<lambda>(P, s). length s)") (auto simp: length_dropWhile_le less_Suc_eq_le)

subsection \<open>Header Normalizer\<close>

text \<open>
  \<^verbatim>\<open>_normalize\<close> of \<^verbatim>\<open>column_identifier.py\<close>:
  \<^verbatim>\<open>cleaned = re.sub(r"[^a-z0-9]+", " ", label.strip().lower())\<close>, then
  \<^verbatim>\<open>re.sub(r"\s+", " ", cleaned).strip()\<close>.
\<close>

definition normalize_label :: "string \<Rightarrow> string" where
  "normalize_label label =
     (let cleaned = re_sub_runs (\<lambda>c. \<not> is_lower_alnum c) (str_lower (str_strip label))
      in str_strip (re_sub_runs py_isspace cleaned))"

text \<open>
  The shape of a normalised header: lower-case letters, digits and spaces only, no two
  spaces in a row, no space at either end.
\<close>

definition word_char :: "char \<Rightarrow> bool" where
  "word_char c = (c = CHR '' '' \<or> is_lower_alnum c)"

fun single_spaced :: "string \<Rightarrow> bool" where
  "single_spaced (c # d # cs) = ((c \<noteq> CHR '' '' \<or> d \<noteq> CHR '' '') \<and> single_spaced (d # cs))"
| "single_spaced _ = True"

definition space_at_ends :: "string \<Rightarrow> bool" where
  "space_at_ends s = (case s of [] \<Rightarrow> False | c # _ \<Rightarrow> c = CHR '' '' \<or> last s = CHR '' '')"

definition normal_form :: "string \<Rightarrow> bool" where
  "normal_form s = (list_all word_char s \<and> single_spaced s \<and> \<not> space_at_ends s)"


section \<open>Python values\<close>

subsection \<open>Errors\<close>

text \<open>
  Every exception the modelled code can raise is a value of \<open>error\<close>; a computation
  that may raise returns \<open>error + 'a\<close>, with \<open>Inl\<close> for the exception.
\<close>

datatype error = TypeError | ValueError | OverflowError | IndexError | KeyError
  | ZeroDivisionError | ValidationError

definition ebind :: "error + 'a \<Rightarrow> ('a \<Rightarrow> error + 'b) \<Rightarrow> error + 'b" where
  "ebind m f = (case m of Inl e \<Rightarrow> Inl e | Inr x \<Rightarrow> f x)"

subsection \<open>Floats\<close>

text \<open>
  A Python \<^verbatim>\<open>float\<close> is an IEEE 754 double: a finite value, one of the two infinities,
  or not-a-number.  A finite double is carried as the rational number it denotes; the two
  zeros are identified (the code never tells them apart: it compares with \<^verbatim>\<open>==\<close>,
  \<^verbatim>\<open><\<close>, tests truth, and guards every division by a zero test).  Arithmetic computes
  the exact rational result and rounds it to the nearest double, ties to even, with
  overflow to infinity, as IEEE 754 does.
\<close>

datatype pyfloat = Fin rat | PosInf | NegInf | NaN

definition round_half_even :: "rat \<Rightarrow> int" where
  "round_half_even x =
     (let f = \<lfloor>x\<rfloor>; d = x - of_int f
      in if d < 1 / 2 then f else if 1 / 2 < d then f + 1 else if even f then f else f + 1)"

text \<open>The exponent \<open>e\<close> with \<open>2 powi e \<le> a < 2 powi (e + 1)\<close>, for a positive \<open>a\<close>.\<close>

definition floor_log2 :: "rat \<Rightarrow> int" where
  "floor_log2 a =
     (let (n, d) = quotient_of a; k = bitlen n - bitlen d
      in if 2 powi k \<le> a then k else k - 1)"

text \<open>
  The largest double is \<open>2 ^ 1024 - 2 ^ 971\<close>; a value rounds to infinity from the
  midpoint between it and \<open>2 ^ 1024\<close> on.
\<close>

definition max_double_bound :: rat where
  "max_double_bound = 2 ^ 1024 - 2 ^ 970"

definition round_double :: "rat \<Rightarrow> pyfloat" where
  "round_double q =
     (if max_double_bound \<le> q then PosInf
      else if q \<le> - max_double_bound then NegInf
      else if q = 0 then Fin 0
      else let e = max (floor_log2 \<bar>q\<bar>) (- 1022); ulp = 2 powi (e - 52)
           in Fin (of_int (round_half_even (q / ulp)) * ulp))"

definition isfinite :: "pyfloat \<Rightarrow> bool" where
  "isfinite f = (case f of Fin _ \<Rightarrow> True | _ \<Rightarrow> False)"

definition fneg :: "pyfloat \<Rightarrow> pyfloat" where
  "fneg f = (case f of Fin a \<Rightarrow> Fin (- a) | PosInf \<Rightarrow> NegInf | NegInf \<Rightarrow> PosInf | NaN \<Rightarrow> NaN)"

definition fadd :: "pyfloat \<Rightarrow> pyfloat \<Rightarrow> pyfloat" where
  "fadd a b =
     (case a of
        NaN \<Rightarrow> NaN
      | Fin x \<Rightarrow> (case b of Fin y \<Rightarrow> round_double (x + y) | _ \<Rightarrow> b)
      | PosInf \<Rightarrow> (case b of NegInf \<Rightarrow> NaN | NaN \<Rightarrow> NaN | _ \<Rightarrow> PosInf)
      | NegInf \<Rightarrow> (case b of PosInf \<Rightarrow> NaN | NaN \<Rightarrow> NaN | _ \<Rightarrow> NegInf))"

definition fsub :: "pyfloat \<Rightarrow> pyfloat \<Rightarrow> pyfloat" where
  "fsub a b = fadd a (fneg b)"

text \<open>Python's \<^verbatim>\<open>a / b\<close> on floats raises \<^verbatim>\<open>ZeroDivisionError\<close> when \<^verbatim>\<open>b == 0.0\<close>.\<close>

definition fdiv :: "pyfloat \<Rightarrow> pyfloat \<Rightarrow> error + pyfloat" where
  "fdiv a b =
     (case b of
        Fin y \<Rightarrow>
          (if y = 0 then Inl ZeroDivisionError
           else case a of
                  Fin x \<Rightarrow> Inr (round_double (x / y))
                | PosInf \<Rightarrow> Inr (if 0 < y then PosInf else NegInf)
                | NegInf \<Rightarrow> Inr (if 0 < y then NegInf else PosInf)
                | NaN \<Rightarrow> Inr NaN)
      | NaN \<Rightarrow> Inr NaN
      | _ \<Rightarrow> (case a of Fin _ \<Rightarrow> Inr (Fin 0) | _ \<Rightarrow> Inr NaN))"

text \<open>Comparisons: every comparison with not-a-number is false.\<close>

definition fless :: "pyfloat \<Rightarrow> pyfloat \<Rightarrow> bool" where
  "fless a b =
     (case a of
        Fin x \<Rightarrow> (case b of Fin y \<Rightarrow> x < y | PosInf \<Rightarrow> True | _ \<Rightarrow> False)
      | NegInf \<Rightarrow> (case b of Fin _ \<Rightarrow> True | PosInf \<Rightarrow> True | _ \<Rightarrow> False)
      | _ \<Rightarrow> False)"

definition feq :: "pyfloat \<Rightarrow> pyfloat \<Rightarrow> bool" where
  "feq a b = (a \<noteq> NaN \<and> a = b)"

definition fle :: "pyfloat \<Rightarrow> pyfloat \<Rightarrow> bool" where
  "fle a b = (fless a b \<or> feq a b)"

subsection \<open>Scalar values\<close>

text \<open>
  The values of a raw record are the scalars of a JSON document: null, a boolean, an
  integer, a float or a string.
\<close>

datatype pyval = PNone | PBool bool | PInt int | PFloat pyfloat | PStr string

text \<open>Truth value of an object (\<^verbatim>\<open>bool(v)\<close>, \<^verbatim>\<open>if v\<close>, \<^verbatim>\<open>not v\<close>); not-a-number is true.\<close>

definition truthy :: "pyval \<Rightarrow> bool" where
  "truthy v =
     (case v of
        PNone \<Rightarrow> False
      | PBool b \<Rightarrow> b
      | PInt n \<Rightarrow> n \<noteq> 0
      | PFloat f \<Rightarrow> f \<noteq> Fin 0
      | PStr s \<Rightarrow> s \<noteq> [])"

text \<open>
  \<^verbatim>\<open>v > n\<close> and \<^verbatim>\<open>v == n\<close> for an integer literal \<open>n\<close>.  Python compares an integer
  and a float by their exact values; ordering a string or \<^verbatim>\<open>None\<close> against an integer
  raises \<^verbatim>\<open>TypeError\<close>, while \<^verbatim>\<open>==\<close> between unrelated types is false.
\<close>

definition py_gt_int :: "pyval \<Rightarrow> int \<Rightarrow> error + bool" where
  "py_gt_int v n =
     (case v of
        PNone \<Rightarrow> Inl TypeError
      | PBool b \<Rightarrow> Inr (n < (if b then 1 else 0))
      | PInt m \<Rightarrow> Inr (n < m)
      | PFloat f \<Rightarrow> Inr (fless (Fin (of_int n)) f)
      | PStr _ \<Rightarrow> Inl TypeError)"

definition py_eq_int :: "pyval \<Rightarrow> int \<Rightarrow> bool" where
  "py_eq_int v n =
     (case v of
        PNone \<Rightarrow> False
      | PBool b \<Rightarrow> (if b then 1 else 0) = n
      | PInt m \<Rightarrow> m = n
      | PFloat f \<Rightarrow> feq f (Fin (of_int n))
      | PStr _ \<Rightarrow> False)"

subsection \<open>The builtin \<^verbatim>\<open>float()\<close>\<close>

text \<open>\<^verbatim>\<open>float(n)\<close> of an integer rounds to the nearest double and raises when there is none.\<close>

definition float_of_int :: "int \<Rightarrow> error + pyfloat" where
  "float_of_int n =
     (if max_double_bound \<le> \<bar>of_int n\<bar> then Inl OverflowError
      else Inr (round_double (of_int n)))"

text \<open>
  \<^verbatim>\<open>float(s)\<close> of a string, as CPython reads it: white space other than ASCII becomes a
  blank and any other character beyond ASCII is invalid; an underscore is allowed between
  two digits only; leading and trailing white space of the C locale is dropped; what
  remains is an optional sign followed by \<^verbatim>\<open>inf\<close>, \<^verbatim>\<open>infinity\<close> or \<^verbatim>\<open>nan\<close> in any case,
  or by a decimal numeral (digits with an optional point and fraction, at least one digit,
  and an optional exponent).  \<open>None\<close> stands for \<^verbatim>\<open>ValueError\<close>.
\<close>

definition is_digit :: "char \<Rightarrow> bool" where
  "is_digit c = (let n = of_char c :: nat in 48 \<le> n \<and> n \<le> 57)"

definition digits_val :: "string \<Rightarrow> nat" where
  "digits_val s = foldl (\<lambda>a c. 10 * a + (of_char c - 48)) 0 s"

definition c_isspace :: "char \<Rightarrow> bool" where
  "c_isspace c = (let n = of_char c :: nat in (9 \<le> n \<and> n \<le> 13) \<or> n = 32)"

definition to_ascii :: "char \<Rightarrow> char" where
  "to_ascii c =
     (if (of_char c :: nat) \<le> 127 then c
      else if py_isspace c then CHR '' '' else CHR ''?'')"

fun underscores_ok :: "char \<Rightarrow> string \<Rightarrow> bool" where
  "underscores_ok prev [] = (prev \<noteq> CHR ''_'')"
| "underscores_ok prev (c # cs) =
     (if c = CHR ''_'' then is_digit prev \<and> underscores_ok c cs
      else (prev \<noteq> CHR ''_'' \<or> is_digit c) \<and> underscores_ok c cs)"

definition parse_sign :: "string \<Rightarrow> bool \<times> string" where
  "parse_sign s =
     (case s of
        c # cs \<Rightarrow> if c = CHR ''-'' then (True, cs) else if c = CHR ''+'' then (False, cs)
                  else (False, s)
      | [] \<Rightarrow> (False, s))"

definition parse_exponent :: "string \<Rightarrow> int option" where
  "parse_exponent s =
     (case s of
        [] \<Rightarrow> Some 0
      | c # cs \<Rightarrow>
          if c = CHR ''e'' \<or> c = CHR ''E'' then
            (let (neg, ds) = parse_sign cs
             in if ds \<noteq> [] \<and> list_all is_digit ds
                then Some (if neg then - int (digits_val ds) else int (digits_val ds))
                else None)
          else None)"

definition parse_decimal :: "string \<Rightarrow> rat option" where
  "parse_decimal s =
     (let ip = takeWhile is_digit s; r1 = dropWhile is_digit s;
          (fp, r2) = (case r1 of
                        c # t \<Rightarrow> if c = CHR ''.'' then (takeWhile is_digit t, dropWhile is_digit t)
                                 else ([], r1)
                      | [] \<Rightarrow> ([], r1))
      in if ip = [] \<and> fp = [] then None
         else case parse_exponent r2 of
                None \<Rightarrow> None
              | Some e \<Rightarrow> Some (of_nat (digits_val (ip @ fp)) * 10 powi (e - int (length fp))))"

definition ascii_lower :: "string \<Rightarrow> string" where
  "ascii_lower s =
     map (\<lambda>c. let n = of_char c :: nat in if 65 \<le> n \<and> n \<le> 90 then char_of (n + 32) else c) s"

definition float_of_string :: "string \<Rightarrow> pyfloat option" where
  "float_of_string s =
     (let s1 = map to_ascii s
      in if \<not> underscores_ok (CHR 0x00) s1 then None
         else
           let s2 = filter (\<lambda>c. c \<noteq> CHR ''_'') s1;
               s3 = rev (dropWhile c_isspace (rev (dropWhile c_isspace s2)));
               (neg, body) = parse_sign s3;
               word = ascii_lower body
           in if word = ''inf'' \<or> word = ''infinity'' then Some (if neg then NegInf else PosInf)
              else if word = ''nan'' then Some NaN
              else case parse_decimal body of
                     None \<Rightarrow> None
                   | Some q \<Rightarrow> Some (round_double (if neg then - q else q)))"

text \<open>
  \<^verbatim>\<open>float(v)\<close> of any value: \<^verbatim>\<open>None\<close> raises \<^verbatim>\<open>TypeError\<close>, a boolean is the integer 0
  or 1, a string that is no numeral raises \<^verbatim>\<open>ValueError\<close>.
\<close>

definition py_float :: "pyval \<Rightarrow> error + pyfloat" where
  "py_float v =
     (case v of
        PNone \<Rightarrow> Inl TypeError
      | PBool b \<Rightarrow> Inr (Fin (if b then 1 else 0))
      | PInt n \<Rightarrow> float_of_int n
      | PFloat f \<Rightarrow> Inr f
      | PStr s \<Rightarrow> (case float_of_string s of None \<Rightarrow> Inl ValueError | Some f \<Rightarrow> Inr f))"


subsection \<open>Dictionaries and loops\<close>

text \<open>
  A Python \<^verbatim>\<open>dict\<close> whose iteration order matters is an association list in insertion
  order: \<^verbatim>\<open>d[k] = v\<close> is \<^const>\<open>AList.update\<close> (a new key goes to the end, an old key
  keeps its place), \<^verbatim>\<open>d.get(k)\<close> is \<^const>\<open>map_of\<close>.  A \<^verbatim>\<open>for\<close> loop whose body may
  raise is a fold that stops at the first error.
\<close>

fun foldl_err :: "('s \<Rightarrow> 'a \<Rightarrow> error + 's) \<Rightarrow> 's \<Rightarrow> 'a list \<Rightarrow> error + 's" where
  "foldl_err f s [] = Inr s"
| "foldl_err f s (x # xs) = (case f s x of Inl e \<Rightarrow> Inl e | Inr s' \<Rightarrow> foldl_err f s' xs)"

text \<open>\<^verbatim>\<open>s.replace(" ", "")\<close> and \<^verbatim>\<open>s.split()\<close>.\<close>

definition remove_spaces :: "string \<Rightarrow> string" where
  "remove_spaces s = filter (\<lambda>c. c \<noteq> CHR '' '') s"

function py_split :: "string \<Rightarrow> string list" where
  "py_split s =
     (case dropWhile py_isspace s of
        [] \<Rightarrow> []
      | c # t \<Rightarrow> (c # takeWhile (\<lambda>x. \<not> py_isspace x) t)
                 # py_split (dropWhile (\<lambda>x. \<not> py_isspace x) t))"
  by pat_completeness auto
termination
proof (relation "measure length")
  show "wf (measure length)" by simp
next
  fix s :: string and c t
  assume a: "dropWhile py_isspace s = c # t"
  have "length (dropWhile (\<lambda>x. \<not> py_isspace x) t) \<le> length t"
    by (rule length_dropWhile_le)
  moreover have "length (c # t) \<le> length s"
    using length_dropWhile_le [of py_isspace s] a by simp
  ultimately show "(dropWhile (\<lambda>x. \<not> py_isspace x) t, s) \<in> measure length" by simp
qed

declare py_split.simps [simp del]

section \<open>Column Resolver\<close>

text \<open>
  \<^verbatim>\<open>CANONICAL_COLUMNS\<close> of \<^verbatim>\<open>schemas.py\<close>: every canonical metric with its accepted
  synonyms, in declaration order.
\<close>

definition CANONICAL_COLUMNS :: "(string \<times> string list) list" where
  "CANONICAL_COLUMNS =
     [(''campaign_name'', [''campaign name'', ''campaign'']),
      (''ad_set_name'', [''ad set name'', ''adset'', ''ad set'']),
      (''ad_name'', [''ad name'', ''ad'']),
      (''ad_id'', [''ad id'', ''creative id'', ''asset id'']),
      (''spend'', [''spend'', ''cost'']),
      (''impressions'', [''impressions'', ''impr'']),
      (''clicks'', [''clicks'', ''link clicks'']),
      (''ctr'', [''ctr'', ''click through rate'', ''ctr %'']),
      (''frequency'', [''frequency'']),
      (''roas'', [''roas'', ''return on ad spend'']),
      (''purchases'', [''purchases'', ''purchase'']),
      (''purchase_value'', [''purchase value'', ''purchase revenue'', ''revenue'']),
      (''adds_to_cart'', [''adds to cart'', ''atc'']),
      (''ctr_7d'', [''ctr 7d'', ''ctr last 7'']),
      (''ctr_prev7'', [''ctr prev7'', ''ctr previous 7'']),
      (''status'', [''status''])]"

text \<open>
  \<^verbatim>\<open>ColumnMapping\<close>: sixteen optional header names, read by field name
  (\<^verbatim>\<open>getattr(self, canonical, None)\<close>), so the model is a map from field name to header.
  \<^verbatim>\<open>available_metrics\<close> lists, in field order, the fields whose value is true, that is
  neither \<^verbatim>\<open>None\<close> nor the empty string.
\<close>

type_synonym column_mapping = "string \<rightharpoonup> string"

definition mapping_fields :: "string list" where
  "mapping_fields =
     [''campaign_name'', ''ad_set_name'', ''ad_name'', ''ad_id'', ''spend'', ''impressions'',
      ''clicks'', ''ctr'', ''frequency'', ''roas'', ''purchases'', ''purchase_value'',
      ''adds_to_cart'', ''ctr_7d'', ''ctr_prev7'', ''status'']"

definition str_truthy :: "string option \<Rightarrow> bool" where
  "str_truthy v = (case v of None \<Rightarrow> False | Some s \<Rightarrow> s \<noteq> [])"

definition resolve :: "column_mapping \<Rightarrow> string \<Rightarrow> string option" where
  "resolve m canonical = (if canonical \<in> set mapping_fields then m canonical else None)"

definition available_metrics :: "column_mapping \<Rightarrow> string list" where
  "available_metrics m = filter (\<lambda>name. str_truthy (m name)) mapping_fields"

text \<open>
  \<^verbatim>\<open>{name: _normalize(name) for name in columns}\<close>: the headers in the caller's order,
  each with its normal form.
\<close>

definition normalized_columns :: "string list \<Rightarrow> (string \<times> string) list" where
  "normalized_columns columns =
     foldl (\<lambda>d name. AList.update name (normalize_label name) d) [] columns"

text \<open>
  \<^verbatim>\<open>_find_best_match\<close>.  The first loop returns the first header whose normal form is a
  target, or is one once the spaces are removed on both sides; the second loop returns
  the first header whose normal form starts with the normal form of the first word of the
  key.  \<^verbatim>\<open>key.split()[0]\<close> is evaluated inside the second loop, so it raises
  \<^verbatim>\<open>IndexError\<close> when the key has no word and there is a header to look at.
\<close>

definition find_best_match ::
  "string \<Rightarrow> (string \<times> string) list \<Rightarrow> string list option \<Rightarrow> error + string option" where
  "find_best_match key ncols fallback_candidates =
     (let normalized_targets =
            (case fallback_candidates of
               Some (c # cs) \<Rightarrow> map normalize_label (c # cs)
             | _ \<Rightarrow> [normalize_label key])
      in case List.find
                (\<lambda>(column_name, normalized).
                   normalized \<in> set normalized_targets
                   \<or> remove_spaces normalized \<in> set (map remove_spaces normalized_targets))
                ncols of
           Some (column_name, _) \<Rightarrow> Inr (Some column_name)
         | None \<Rightarrow>
             (case ncols of
                [] \<Rightarrow> Inr None
              | _ # _ \<Rightarrow>
                  (case py_split key of
                     [] \<Rightarrow> Inl IndexError
                   | w # _ \<Rightarrow>
                       Inr (map_option fst
                              (List.find (\<lambda>(column_name, normalized).
                                            prefix (normalize_label w) normalized) ncols)))))"

text \<open>
  One round of the loop over the hints in \<^verbatim>\<open>SemanticColumnIdentifier.__call__\<close>: a hint
  that is a header verbatim is taken as it is; otherwise its normal form goes through
  \<^verbatim>\<open>_find_best_match\<close>, and a true (non-empty) result is stored.
\<close>

definition apply_hint ::
  "(string \<times> string) list \<Rightarrow> column_mapping \<Rightarrow> string \<times> string \<Rightarrow> error + column_mapping" where
  "apply_hint ncols canonical_to_source h =
     (case h of (canonical, hinted_column) \<Rightarrow>
        if hinted_column \<in> set (map fst ncols)
        then Inr (canonical_to_source(canonical \<mapsto> hinted_column))
        else case find_best_match (normalize_label hinted_column) ncols None of
               Inl e \<Rightarrow> Inl e
             | Inr target \<Rightarrow>
                 Inr (if str_truthy target then canonical_to_source(canonical := target)
                      else canonical_to_source))"

text \<open>
  One round of the loop over \<^verbatim>\<open>CANONICAL_COLUMNS\<close>: a metric that has a true value is
  skipped; otherwise the first header whose normal form is a candidate (a synonym or the
  canonical name), with or without spaces, is stored; if the stored value is still not
  true, \<^verbatim>\<open>_find_best_match\<close> is tried with the candidates as fallback.
\<close>

definition auto_match ::
  "(string \<times> string) list \<Rightarrow> column_mapping \<Rightarrow> string \<times> string list \<Rightarrow> error + column_mapping" where
  "auto_match ncols canonical_to_source entry =
     (case entry of (canonical, synonyms) \<Rightarrow>
        if str_truthy (canonical_to_source canonical) then Inr canonical_to_source
        else
          let candidates = synonyms @ [canonical];
              c2s = (case List.find
                            (\<lambda>(column_name, normalized).
                               normalized \<in> set candidates
                               \<or> remove_spaces normalized \<in> set (map remove_spaces candidates))
                            ncols of
                       Some (column_name, _) \<Rightarrow> canonical_to_source(canonical \<mapsto> column_name)
                     | None \<Rightarrow> canonical_to_source)
          in if str_truthy (c2s canonical) then Inr c2s
             else case find_best_match canonical ncols (Some candidates) of
                    Inl e \<Rightarrow> Inl e
                  | Inr target \<Rightarrow>
                      Inr (if str_truthy target then c2s(canonical := target) else c2s))"

text \<open>
  \<^verbatim>\<open>SemanticColumnIdentifier.__call__\<close>: the hints for canonical metrics, in the order
  given, then the automatic match.  Absent hints are the empty list.
\<close>

definition identify_columns :: "string list \<Rightarrow> (string \<times> string) list \<Rightarrow> error + column_mapping" where
  "identify_columns columns hints =
     (let hint_mapping = filter (\<lambda>(key, _). key \<in> set (map fst CANONICAL_COLUMNS)) hints;
          ncols = normalized_columns columns
      in ebind (foldl_err (apply_hint ncols) Map.empty hint_mapping)
           (\<lambda>c2s. foldl_err (auto_match ncols) c2s CANONICAL_COLUMNS))"

section \<open>Metric Deriver\<close>

text \<open>
  A raw record is a dictionary from header to scalar, in the order of the input; a derived
  row is a dictionary from metric name to value, which the code only reads by key, so it
  is a map.  \<^verbatim>\<open>d.get(k)\<close> is \<^verbatim>\<open>None\<close> for a missing key.
\<close>

type_synonym raw_record = "(string \<times> pyval) list"

type_synonym derived_row = "string \<rightharpoonup> pyval"

definition record_get :: "raw_record \<Rightarrow> string \<Rightarrow> pyval" where
  "record_get r column = (case map_of r column of None \<Rightarrow> PNone | Some v \<Rightarrow> v)"

definition row_get :: "derived_row \<Rightarrow> string \<Rightarrow> pyval" where
  "row_get row k = (case row k of None \<Rightarrow> PNone | Some v \<Rightarrow> v)"

definition numeric_fields :: "string list" where
  "numeric_fields =
     [''spend'', ''impressions'', ''clicks'', ''ctr'', ''frequency'', ''roas'', ''purchases'',
      ''purchase_value'', ''adds_to_cart'', ''ctr_7d'', ''ctr_prev7'']"

text \<open>
  \<^verbatim>\<open>_to_float\<close>: an \<^verbatim>\<open>int\<close> or \<^verbatim>\<open>float\<close> (a \<^verbatim>\<open>bool\<close> is an \<^verbatim>\<open>int\<close>) goes through
  \<^verbatim>\<open>float()\<close>; a string goes through \<^verbatim>\<open>float(value.replace("%", ""))\<close>, with
  \<^verbatim>\<open>ValueError\<close> caught; anything else is not-a-number.
\<close>

definition to_float :: "pyval \<Rightarrow> error + pyfloat" where
  "to_float v =
     (case v of
        PNone \<Rightarrow> Inr NaN
      | PStr s \<Rightarrow>
          (case float_of_string (filter (\<lambda>c. c \<noteq> CHR ''%'') s) of
             None \<Rightarrow> Inr NaN
           | Some f \<Rightarrow> Inr f)
      | _ \<Rightarrow> py_float v)"

text \<open>
  \<^verbatim>\<open>_is_valid_number\<close>: \<^verbatim>\<open>None\<close> is not valid; \<^verbatim>\<open>TypeError\<close> and \<^verbatim>\<open>ValueError\<close> of
  \<^verbatim>\<open>float(value)\<close> are caught (any other exception passes); otherwise the value is valid
  when the float is finite.
\<close>

definition is_valid_number :: "pyval \<Rightarrow> error + bool" where
  "is_valid_number v =
     (if v = PNone then Inr False
      else case py_float v of
             Inl TypeError \<Rightarrow> Inr False
           | Inl ValueError \<Rightarrow> Inr False
           | Inl e \<Rightarrow> Inl e
           | Inr numeric \<Rightarrow> Inr (isfinite numeric))"

text \<open>\<^verbatim>\<open>float(a) / float(b)\<close>, the operands converted from left to right.\<close>

definition float_quotient :: "pyval \<Rightarrow> pyval \<Rightarrow> error + pyfloat" where
  "float_quotient a b = ebind (py_float a) (\<lambda>x. ebind (py_float b) (\<lambda>y. fdiv x y))"

text \<open>
  \<^verbatim>\<open>_compute_ratio\<close>; the condition \<^verbatim>\<open>not valid(numerator) or not valid(denominator)\<close>
  tests the denominator only when the numerator is valid.
\<close>

definition compute_ratio :: "pyval \<Rightarrow> pyval \<Rightarrow> error + pyfloat" where
  "compute_ratio numerator denominator =
     ebind (is_valid_number numerator) (\<lambda>vn.
       if \<not> vn then Inr NaN
       else ebind (is_valid_number denominator) (\<lambda>vd.
         if \<not> vd then Inr NaN
         else ebind (py_float denominator) (\<lambda>d.
           if feq d (Fin 0) then Inr NaN
           else float_quotient numerator denominator)))"

text \<open>\<^verbatim>\<open>_compute_ctr\<close>.\<close>

definition compute_ctr :: "derived_row \<Rightarrow> error + pyfloat" where
  "compute_ctr metrics =
     (let v = row_get metrics ''ctr''
      in ebind (is_valid_number v) (\<lambda>ok.
           if ok then py_float v
           else
             let clicks = row_get metrics ''clicks'';
                 impressions = row_get metrics ''impressions''
             in ebind (is_valid_number clicks) (\<lambda>vc.
                  if \<not> vc then Inr NaN
                  else ebind (is_valid_number impressions) (\<lambda>vi.
                    if \<not> vi then Inr NaN
                    else ebind (py_float impressions) (\<lambda>i.
                      if feq i (Fin 0) then Inr NaN
                      else float_quotient clicks impressions)))))"

text \<open>\<^verbatim>\<open>_compute_ctr_delta\<close>.\<close>

definition compute_ctr_delta :: "derived_row \<Rightarrow> error + pyfloat" where
  "compute_ctr_delta metrics =
     ebind (is_valid_number (row_get metrics ''ctr_7d'')) (\<lambda>v7.
       let current = (if v7 then row_get metrics ''ctr_7d'' else row_get metrics ''ctr'');
           previous = row_get metrics ''ctr_prev7''
       in ebind (is_valid_number current) (\<lambda>vc.
            if \<not> vc then Inr NaN
            else ebind (is_valid_number previous) (\<lambda>vp.
              if \<not> vp then Inr NaN
              else ebind (py_float previous) (\<lambda>prev_value.
                if feq prev_value (Fin 0) then Inr NaN
                else ebind (py_float current) (\<lambda>c.
                  fdiv (fsub c prev_value) prev_value)))))"

text \<open>
  \<^verbatim>\<open>_derive_row_metrics\<close>, for one record: the loop over the available metrics, then the
  three synthetic metrics, each stored before the next is computed.
\<close>

definition coerce_metric ::
  "raw_record \<Rightarrow> column_mapping \<Rightarrow> derived_row \<Rightarrow> string \<Rightarrow> error + derived_row" where
  "coerce_metric record mapping metrics canonical =
     (case resolve mapping canonical of
        None \<Rightarrow> Inr metrics
      | Some column \<Rightarrow>
          let v = record_get record column
          in if canonical \<in> set numeric_fields
             then ebind (to_float v) (\<lambda>f. Inr (metrics(canonical \<mapsto> PFloat f)))
             else Inr (metrics(canonical \<mapsto> v)))"

definition derive_row :: "column_mapping \<Rightarrow> raw_record \<Rightarrow> error + derived_row" where
  "derive_row mapping record =
     ebind (foldl_err (coerce_metric record mapping) Map.empty (available_metrics mapping))
       (\<lambda>m0. ebind (compute_ctr m0)
         (\<lambda>ctr. let m1 = m0(''ctr'' \<mapsto> PFloat ctr)
                in ebind (compute_ratio (row_get m1 ''purchases'') (row_get m1 ''adds_to_cart''))
                     (\<lambda>atc. let m2 = m1(''atc_to_purchase'' \<mapsto> PFloat atc)
                            in ebind (compute_ctr_delta m2)
                                 (\<lambda>delta. Inr (m2(''ctr_delta'' \<mapsto> PFloat delta))))))"

definition derive_row_metrics :: "raw_record list \<Rightarrow> column_mapping \<Rightarrow> error + derived_row list" where
  "derive_row_metrics records mapping =
     foldl_err (\<lambda>results record. ebind (derive_row mapping record) (\<lambda>m. Inr (results @ [m])))
       [] records"

text \<open>
  \<^verbatim>\<open>_aggregate\<close>.  \<^verbatim>\<open>sums\<close> and \<^verbatim>\<open>counts\<close> are dictionaries in insertion order.  For each
  row, the six totals, then the seven averages (sum and count); at the end every average
  key with a non-zero count is divided by its count (\<^verbatim>\<open>float / int\<close> converts the
  integer with \<^verbatim>\<open>float()\<close>).
\<close>

definition total_metrics :: "string list" where
  "total_metrics =
     [''spend'', ''impressions'', ''clicks'', ''purchases'', ''purchase_value'', ''adds_to_cart'']"

definition average_metrics :: "string list" where
  "average_metrics =
     [''ctr'', ''frequency'', ''roas'', ''atc_to_purchase'', ''ctr_7d'', ''ctr_prev7'', ''ctr_delta'']"

type_synonym agg_state = "(string \<times> pyfloat) list \<times> (string \<times> nat) list"

definition sums_get :: "(string \<times> pyfloat) list \<Rightarrow> string \<Rightarrow> pyfloat" where
  "sums_get sum_d key = (case map_of sum_d key of None \<Rightarrow> Fin 0 | Some s \<Rightarrow> s)"

definition counts_get :: "(string \<times> nat) list \<Rightarrow> string \<Rightarrow> nat" where
  "counts_get count_d key = (case map_of count_d key of None \<Rightarrow> 0 | Some n \<Rightarrow> n)"

definition add_total :: "derived_row \<Rightarrow> agg_state \<Rightarrow> string \<Rightarrow> error + agg_state" where
  "add_total row st metric =
     (case st of (sum_d, count_d) \<Rightarrow>
        let v = row_get row metric
        in ebind (is_valid_number v) (\<lambda>ok.
             if ok then
               ebind (py_float v) (\<lambda>f.
                 Inr (AList.update (''total_'' @ metric)
                        (fadd (sums_get sum_d (''total_'' @ metric)) f) sum_d, count_d))
             else Inr st))"

definition add_average :: "derived_row \<Rightarrow> agg_state \<Rightarrow> string \<Rightarrow> error + agg_state" where
  "add_average row st metric =
     (case st of (sum_d, count_d) \<Rightarrow>
        let v = row_get row metric
        in ebind (is_valid_number v) (\<lambda>ok.
             if ok then
               let key = ''avg_'' @ metric
               in ebind (py_float v) (\<lambda>f.
                    Inr (AList.update key (fadd (sums_get sum_d key) f) sum_d,
                         AList.update key (counts_get count_d key + 1) count_d))
             else Inr st))"

definition aggregate_row :: "agg_state \<Rightarrow> derived_row \<Rightarrow> error + agg_state" where
  "aggregate_row st row =
     ebind (foldl_err (add_total row) st total_metrics)
       (\<lambda>st'. foldl_err (add_average row) st' average_metrics)"

definition divide_by_count ::
  "(string \<times> pyfloat) list \<Rightarrow> string \<times> nat \<Rightarrow> error + (string \<times> pyfloat) list" where
  "divide_by_count sum_d kc =
     (case kc of (key, count) \<Rightarrow>
        if count \<noteq> 0 then
          (case map_of sum_d key of
             None \<Rightarrow> Inl KeyError
           | Some s \<Rightarrow>
               ebind (float_of_int (int count)) (\<lambda>n.
                 ebind (fdiv s n) (\<lambda>q. Inr (AList.update key q sum_d))))
        else Inr sum_d)"

definition aggregate :: "derived_row list \<Rightarrow> error + (string \<times> pyfloat) list" where
  "aggregate rows =
     ebind (foldl_err aggregate_row ([], []) rows)
       (\<lambda>(sum_d, count_d). foldl_err divide_by_count sum_d count_d)"

text \<open>\<^verbatim>\<open>MetricSummary\<close> and \<^verbatim>\<open>MetricCalculator.__call__\<close>.\<close>

record metric_summary =
  column_mapping :: column_mapping
  per_row :: "derived_row list"
  aggregates :: "(string \<times> pyfloat) list"

definition metric_calculator :: "raw_record list \<Rightarrow> column_mapping \<Rightarrow> error + metric_summary" where
  "metric_calculator records mapping =
     ebind (derive_row_metrics records mapping) (\<lambda>per_row_metrics.
       ebind (aggregate per_row_metrics) (\<lambda>aggregate_metrics.
         Inr \<lparr>column_mapping = mapping, per_row = per_row_metrics,
              aggregates = aggregate_metrics\<rparr>))"


section \<open>Rule Engine\<close>

text \<open>
  \<^verbatim>\<open>Insight\<close> of \<^verbatim>\<open>schemas.py\<close>.  The two free-text fields \<^verbatim>\<open>action\<close> and \<^verbatim>\<open>rationale\<close>
  are constants of each rule and are left out.  The evidence in \<^verbatim>\<open>metrics\<close> is either a
  float or the list of offending rows of the last rule.
\<close>

datatype severity = Info | Warning | Critical | Opportunity

datatype evidence = Number pyfloat | Offenders "(string \<times> pyval) list list"

record insight =
  code :: string
  label :: string
  severity :: severity
  metrics :: "(string \<times> evidence) list"

text \<open>
  \<^verbatim>\<open>Rule\<close>: a code, a label, a predicate and a builder, both over the summary
  (\<^verbatim>\<open>RuleContext\<close> only wraps it).
\<close>

record rule =
  rule_code :: string
  rule_label :: string
  applies :: "metric_summary \<Rightarrow> error + bool"
  build_insight :: "metric_summary \<Rightarrow> error + insight"

definition agg_get :: "metric_summary \<Rightarrow> string \<Rightarrow> pyfloat option" where
  "agg_get s key = map_of (aggregates s) key"

definition agg_get_default :: "metric_summary \<Rightarrow> string \<Rightarrow> pyfloat" where
  "agg_get_default s key = (case agg_get s key of None \<Rightarrow> Fin 0 | Some v \<Rightarrow> v)"

text \<open>The float literals of the thresholds.\<close>

definition lit_0_015 :: pyfloat where "lit_0_015 = round_double (15 / 1000)"
definition lit_0_2 :: pyfloat where "lit_0_2 = round_double (2 / 10)"
definition lit_3_5 :: pyfloat where "lit_3_5 = Fin (7 / 2)"
definition lit_minus_0_1 :: pyfloat where "lit_minus_0_1 = round_double (- (1 / 10))"

text \<open>\<^verbatim>\<open>_RoasOneToTwoRule\<close>: \<^verbatim>\<open>roas is not None and 1.0 <= roas <= 2.0\<close>.\<close>

definition roas_applies :: "metric_summary \<Rightarrow> error + bool" where
  "roas_applies s =
     Inr (case agg_get s ''avg_roas'' of
            None \<Rightarrow> False
          | Some roas \<Rightarrow> fle (Fin 1) roas \<and> fle roas (Fin 2))"

definition roas_build :: "metric_summary \<Rightarrow> error + insight" where
  "roas_build s =
     Inr \<lparr>code = ''roas_1_2'', label = ''ROAS between 1 and 2'', severity = Opportunity,
          metrics = [(''avg_roas'', Number (agg_get_default s ''avg_roas''))]\<rparr>"

definition RoasOneToTwoRule :: rule where
  "RoasOneToTwoRule =
     \<lparr>rule_code = ''roas_1_2'', rule_label = ''ROAS between 1 and 2'',
      applies = roas_applies, build_insight = roas_build\<rparr>"

text \<open>
  \<^verbatim>\<open>_HealthyCtrWeakConversionRule\<close>:
  \<^verbatim>\<open>bool(ctr and ctr >= 0.015 and (atc_purchase is None or atc_purchase < 0.2))\<close>.
\<close>

definition healthy_ctr_applies :: "metric_summary \<Rightarrow> error + bool" where
  "healthy_ctr_applies s =
     Inr (case agg_get s ''avg_ctr'' of
            None \<Rightarrow> False
          | Some ctr \<Rightarrow>
              ctr \<noteq> Fin 0 \<and> fle lit_0_015 ctr
              \<and> (case agg_get s ''avg_atc_to_purchase'' of
                    None \<Rightarrow> True
                  | Some atc_purchase \<Rightarrow> fless atc_purchase lit_0_2))"

definition healthy_ctr_build :: "metric_summary \<Rightarrow> error + insight" where
  "healthy_ctr_build s =
     Inr \<lparr>code = ''ctr_healthy_low_conversion'', label = ''CTR healthy, conversion weak'',
          severity = Warning,
          metrics = [(''avg_ctr'', Number (agg_get_default s ''avg_ctr'')),
                     (''avg_atc_to_purchase'', Number (agg_get_default s ''avg_atc_to_purchase''))]\<rparr>"

definition HealthyCtrWeakConversionRule :: rule where
  "HealthyCtrWeakConversionRule =
     \<lparr>rule_code = ''ctr_healthy_low_conversion'', rule_label = ''CTR healthy, conversion weak'',
      applies = healthy_ctr_applies, build_insight = healthy_ctr_build\<rparr>"

text \<open>\<^verbatim>\<open>_HighFrequencyFatigueRule\<close>: \<^verbatim>\<open>bool(frequency and frequency >= 3.5)\<close>.\<close>

definition frequency_applies :: "metric_summary \<Rightarrow> error + bool" where
  "frequency_applies s =
     Inr (case agg_get s ''avg_frequency'' of
            None \<Rightarrow> False
          | Some frequency \<Rightarrow> frequency \<noteq> Fin 0 \<and> fle lit_3_5 frequency)"

definition frequency_build :: "metric_summary \<Rightarrow> error + insight" where
  "frequency_build s =
     Inr \<lparr>code = ''frequency_fatigue'', label = ''High frequency risk'', severity = Warning,
          metrics = [(''avg_frequency'', Number (agg_get_default s ''avg_frequency''))]\<rparr>"

definition HighFrequencyFatigueRule :: rule where
  "HighFrequencyFatigueRule =
     \<lparr>rule_code = ''frequency_fatigue'', rule_label = ''High frequency risk'',
      applies = frequency_applies, build_insight = frequency_build\<rparr>"

text \<open>\<^verbatim>\<open>_CtrDropRule\<close>: \<^verbatim>\<open>bool(delta is not None and delta < -0.1)\<close>.\<close>

definition ctr_drop_applies :: "metric_summary \<Rightarrow> error + bool" where
  "ctr_drop_applies s =
     Inr (case agg_get s ''avg_ctr_delta'' of
            None \<Rightarrow> False
          | Some delta \<Rightarrow> fless delta lit_minus_0_1)"

definition ctr_drop_build :: "metric_summary \<Rightarrow> error + insight" where
  "ctr_drop_build s =
     Inr \<lparr>code = ''ctr_drop_vs_prev7'', label = ''CTR dropped vs previous 7 days'',
          severity = Critical,
          metrics = [(''avg_ctr_delta'', Number (agg_get_default s ''avg_ctr_delta''))]\<rparr>"

definition CtrDropRule :: rule where
  "CtrDropRule =
     \<lparr>rule_code = ''ctr_drop_vs_prev7'', rule_label = ''CTR dropped vs previous 7 days'',
      applies = ctr_drop_applies, build_insight = ctr_drop_build\<rparr>"

text \<open>
  \<^verbatim>\<open>_SpendZeroPurchasesRule\<close>.  The condition on a row is
  \<^verbatim>\<open>spend and spend > 50 and (not purchases or purchases == 0)\<close>; \<^verbatim>\<open>spend > 50\<close> is
  evaluated only for a true \<^verbatim>\<open>spend\<close>, and raises \<^verbatim>\<open>TypeError\<close> on a string.
  \<^verbatim>\<open>applies\<close> returns at the first row that meets it; \<^verbatim>\<open>build_insight\<close> evaluates it on
  every row.
\<close>

definition row_offends :: "derived_row \<Rightarrow> error + bool" where
  "row_offends row =
     (let spend = row_get row ''spend''; purchases = row_get row ''purchases''
      in if \<not> truthy spend then Inr False
         else ebind (py_gt_int spend 50) (\<lambda>above.
                Inr (above \<and> (\<not> truthy purchases \<or> py_eq_int purchases 0))))"

fun any_row_offends :: "derived_row list \<Rightarrow> error + bool" where
  "any_row_offends [] = Inr False"
| "any_row_offends (row # rows) =
     (case row_offends row of
        Inl e \<Rightarrow> Inl e
      | Inr b \<Rightarrow> if b then Inr True else any_row_offends rows)"

definition row_get_default :: "derived_row \<Rightarrow> string \<Rightarrow> pyval \<Rightarrow> pyval" where
  "row_get_default row k d = (case row k of None \<Rightarrow> d | Some v \<Rightarrow> v)"

definition offender_entry :: "derived_row \<Rightarrow> (string \<times> pyval) list" where
  "offender_entry row =
     [(''spend'', row_get_default row ''spend'' (PFloat (Fin 0))),
      (''purchases'', row_get_default row ''purchases'' (PFloat (Fin 0))),
      (''campaign_name'', row_get row ''campaign_name''),
      (''ad_name'', row_get row ''ad_name'')]"

fun offenders :: "derived_row list \<Rightarrow> error + (string \<times> pyval) list list" where
  "offenders [] = Inr []"
| "offenders (row # rows) =
     (case row_offends row of
        Inl e \<Rightarrow> Inl e
      | Inr b \<Rightarrow>
          (case offenders rows of
             Inl e \<Rightarrow> Inl e
           | Inr os \<Rightarrow> Inr (if b then offender_entry row # os else os)))"

definition spend_applies :: "metric_summary \<Rightarrow> error + bool" where
  "spend_applies s = any_row_offends (per_row s)"

definition spend_build :: "metric_summary \<Rightarrow> error + insight" where
  "spend_build s =
     ebind (offenders (per_row s)) (\<lambda>os.
       Inr \<lparr>code = ''spend_no_purchases'', label = ''Spend with no purchases'',
            severity = Critical, metrics = [(''offenders'', Offenders os)]\<rparr>)"

definition SpendZeroPurchasesRule :: rule where
  "SpendZeroPurchasesRule =
     \<lparr>rule_code = ''spend_no_purchases'', rule_label = ''Spend with no purchases'',
      applies = spend_applies, build_insight = spend_build\<rparr>"

text \<open>
  \<^verbatim>\<open>RuleBasedInsightAgent\<close>: the extra rules first, then the five fixed rules;
  \<^verbatim>\<open>__call__\<close> appends the insight of every rule that applies, in that order.
\<close>

definition default_rules :: "rule list" where
  "default_rules =
     [RoasOneToTwoRule, HealthyCtrWeakConversionRule, HighFrequencyFatigueRule, CtrDropRule,
      SpendZeroPurchasesRule]"

definition agent_rules :: "rule list \<Rightarrow> rule list" where
  "agent_rules extra_rules = extra_rules @ default_rules"

fun run_rules :: "rule list \<Rightarrow> metric_summary \<Rightarrow> insight list \<Rightarrow> error + insight list" where
  "run_rules [] s insights = Inr insights"
| "run_rules (r # rs) s insights =
     (case applies r s of
        Inl e \<Rightarrow> Inl e
      | Inr b \<Rightarrow>
          if b then
            (case build_insight r s of
               Inl e \<Rightarrow> Inl e
             | Inr i \<Rightarrow> run_rules rs s (insights @ [i]))
          else run_rules rs s insights)"

definition insight_agent :: "rule list \<Rightarrow> metric_summary \<Rightarrow> error + insight list" where
  "insight_agent extra_rules s = run_rules (agent_rules extra_rules) s []"


section \<open>The engine\<close>

text \<open>
  \<^verbatim>\<open>InsightRequest\<close> with its validator \<^verbatim>\<open>_ensure_data\<close>: an empty \<^verbatim>\<open>data\<close> raises
  \<^verbatim>\<open>ValueError\<close>, which the request model reports as a validation error; otherwise the
  request is returned unchanged.  Absent hints are the empty list.  The validator runs
  when a request object is built from its fields (the constructor, \<^verbatim>\<open>model_validate\<close>); a
  request object that exists is not bound to it: its fields can be assigned, and
  \<^verbatim>\<open>model_construct\<close> builds one without validators, so the record type has no invariant.
\<close>

record insight_request =
  data :: "raw_record list"
  column_hints :: "(string \<times> string) list"

definition ensure_data :: "insight_request \<Rightarrow> error + insight_request" where
  "ensure_data req = (if data req = [] then Inl ValidationError else Inr req)"

text \<open>
  \<^verbatim>\<open>InsightEngine\<close>: the three stages and the narrative generator are components given to
  the constructor.  The generator stands for \<^verbatim>\<open>_build_prompt\<close> followed by the client's
  \<^verbatim>\<open>generate\<close>; it gets the insights and the aggregates the prompt is built from.
\<close>

record engine =
  column_identifier :: "string list \<Rightarrow> (string \<times> string) list \<Rightarrow> error + column_mapping"
  calculator :: "raw_record list \<Rightarrow> column_mapping \<Rightarrow> error + metric_summary"
  agent :: "metric_summary \<Rightarrow> error + insight list"
  narrate :: "insight list \<Rightarrow> (string \<times> pyfloat) list \<Rightarrow> error + string"

record diagnostics =
  column_mapping_confidence :: "string list"
  aggregate_metrics :: "(string \<times> pyfloat) list"
  insight_count :: nat
  narrative :: string

record insight_response =
  response_mapping :: column_mapping
  insights :: "insight list"
  response_diagnostics :: diagnostics

text \<open>
  The graph \<^verbatim>\<open>identify_columns \<rightarrow> calculate_metrics \<rightarrow> generate_insights \<rightarrow>
  compose_narrative\<close>; the headers are the keys of the first record.
\<close>

definition invoke :: "engine \<Rightarrow> insight_request \<Rightarrow> error + insight_response" where
  "invoke e req =
     (case data req of
        [] \<Rightarrow> Inl IndexError
      | first # _ \<Rightarrow>
          ebind (column_identifier e (map fst first) (column_hints req)) (\<lambda>mapping.
            ebind (calculator e (data req) mapping) (\<lambda>summary.
              ebind (agent e summary) (\<lambda>found.
                ebind (narrate e found (aggregates summary)) (\<lambda>text.
                  Inr \<lparr>response_mapping = mapping, insights = found,
                       response_diagnostics =
                         \<lparr>column_mapping_confidence = available_metrics mapping,
                          aggregate_metrics = aggregates summary,
                          insight_count = length found,
                          narrative = text\<rparr>\<rparr>)))))"

text \<open>
  The payload of \<^verbatim>\<open>InsightEngine.run\<close> is \<^verbatim>\<open>InsightRequest | Dict[str, Any]\<close>: a request
  object, or a raw mapping with the fields of one.  \<^verbatim>\<open>run\<close> takes a request object as
  it is and validates only a raw mapping
  (\<^verbatim>\<open>payload if isinstance(payload, InsightRequest) else InsightRequest.model_validate(payload)\<close>),
  then invokes the graph.
\<close>

datatype payload = RequestObject insight_request | RawMapping insight_request

definition run :: "engine \<Rightarrow> payload \<Rightarrow> error + insight_response" where
  "run e payload =
     ebind (case payload of
              RequestObject request \<Rightarrow> Inr request
            | RawMapping raw \<Rightarrow> ensure_data raw)
       (\<lambda>request. invoke e request)"

definition default_engine :: "(insight list \<Rightarrow> (string \<times> pyfloat) list \<Rightarrow> error + string) \<Rightarrow> engine" where
  "default_engine llm =
     \<lparr>column_identifier = identify_columns, calculator = metric_calculator,
      agent = insight_agent [], narrate = llm\<rparr>"


section \<open>Notions used to state the properties\<close>

text \<open>
  A derived row as the Metric Deriver builds it: each numeric metric and each synthetic
  metric is absent or a float.  An entry is valid when it is a finite float.
\<close>

definition float_or_absent :: "pyval option \<Rightarrow> bool" where
  "float_or_absent v = (case v of None \<Rightarrow> True | Some (PFloat _) \<Rightarrow> True | Some _ \<Rightarrow> False)"

definition derived_row_ok :: "derived_row \<Rightarrow> bool" where
  "derived_row_ok row =
     list_all (\<lambda>k. float_or_absent (row k)) (numeric_fields @ [''atc_to_purchase'', ''ctr_delta''])"

definition valid_value :: "pyval option \<Rightarrow> rat option" where
  "valid_value v = (case v of Some (PFloat (Fin x)) \<Rightarrow> Some x | _ \<Rightarrow> None)"

text \<open>A value that may reach a ratio computation: \<^verbatim>\<open>None\<close> (a missing key) or a float.\<close>

definition ratio_operand :: "pyval \<Rightarrow> bool" where
  "ratio_operand v = (case v of PNone \<Rightarrow> True | PFloat _ \<Rightarrow> True | _ \<Rightarrow> False)"

text \<open>
  A derived row that the last rule reports: spend above 50, purchases missing or equal
  to 0.
\<close>

definition spends_without_purchases :: "derived_row \<Rightarrow> bool" where
  "spends_without_purchases row =
     (case row ''spend'' of
        Some (PFloat x) \<Rightarrow>
          fless (Fin 50) x
          \<and> (row ''purchases'' = None \<or> row ''purchases'' = Some (PFloat (Fin 0)))
      | _ \<Rightarrow> False)"

text \<open>A rule fires on a summary when its predicate returns true.\<close>

definition fires :: "metric_summary \<Rightarrow> rule \<Rightarrow> bool" where
  "fires s r = (applies r s = Inr True)"

text \<open>
  A summary in the style of the end-to-end scenario of the specification: two derived
  rows, the second with spend 80 and no purchase, and an average ROAS of 1.25.
\<close>

definition scenario_rows :: "derived_row list" where
  "scenario_rows =
     [[''campaign_name'' \<mapsto> PStr ''Spring Drops'', ''ad_name'' \<mapsto> PStr ''Creative A'',
       ''spend'' \<mapsto> PFloat (Fin 150), ''purchases'' \<mapsto> PFloat (Fin 3)],
      [''campaign_name'' \<mapsto> PStr ''Spring Drops'', ''ad_name'' \<mapsto> PStr ''Creative B'',
       ''spend'' \<mapsto> PFloat (Fin 80), ''purchases'' \<mapsto> PFloat (Fin 0)]]"

definition scenario_summary :: metric_summary where
  "scenario_summary =
     \<lparr>column_mapping = Map.empty, per_row = scenario_rows,
      aggregates = [(''total_spend'', Fin 230), (''avg_roas'', Fin (5 / 4))]\<rparr>"

text \<open>
  The coercion as the specification words it: a number passes through as a float, a
  string is parsed after one trailing \<^verbatim>\<open>%\<close> is stripped, anything else is not-a-number.
\<close>

definition strip_trailing_percent :: "string \<Rightarrow> string" where
  "strip_trailing_percent s = (if s \<noteq> [] \<and> last s = CHR ''%'' then butlast s else s)"

definition spec_to_float :: "pyval \<Rightarrow> pyfloat" where
  "spec_to_float v =
     (case v of
        PInt n \<Rightarrow> round_double (of_int n)
      | PFloat f \<Rightarrow> f
      | PStr s \<Rightarrow>
          (case float_of_string (strip_trailing_percent s) of None \<Rightarrow> NaN | Some f \<Rightarrow> f)
      | _ \<Rightarrow> NaN)"

text \<open>
  What the loop over the available metrics stores for a canonical metric: the raw value
  of the mapped header, coerced when the metric is numeric.
\<close>

definition coerced :: "raw_record \<Rightarrow> column_mapping \<Rightarrow> string \<Rightarrow> pyval option" where
  "coerced record mapping canonical =
     (case mapping canonical of
        None \<Rightarrow> None
      | Some column \<Rightarrow>
          if canonical \<in> set numeric_fields
          then (case to_float (record_get record column) of
                  Inl _ \<Rightarrow> None
                | Inr f \<Rightarrow> Some (PFloat f))
          else Some (record_get record column))"

text \<open>
  The aggregates in plain terms.  The valid values of a field are the finite floats the
  rows hold under it, in row order; the float sum adds them from the left to 0.0 and
  the float mean divides that sum by the count, both in double arithmetic.
\<close>

definition valid_values :: "derived_row list \<Rightarrow> string \<Rightarrow> rat list" where
  "valid_values rows field = List.map_filter (\<lambda>row. valid_value (row field)) rows"

definition fsum :: "rat list \<Rightarrow> pyfloat" where
  "fsum xs = foldl fadd (Fin 0) (map Fin xs)"

definition fmean :: "rat list \<Rightarrow> error + pyfloat" where
  "fmean xs = fdiv (fsum xs) (round_double (of_nat (length xs)))"

text \<open>What one row does to the sum and to the count stored under a key.\<close>

definition acc_step :: "rat option \<Rightarrow> pyfloat option \<Rightarrow> pyfloat option" where
  "acc_step v a =
     (case v of
        None \<Rightarrow> a
      | Some x \<Rightarrow> Some (fadd (case a of None \<Rightarrow> Fin 0 | Some s \<Rightarrow> s) (Fin x)))"

definition cnt_step :: "rat option \<Rightarrow> nat option \<Rightarrow> nat option" where
  "cnt_step v a =
     (case v of
        None \<Rightarrow> a
      | Some x \<Rightarrow> Some ((case a of None \<Rightarrow> 0 | Some n \<Rightarrow> n) + 1))"

definition total_keys :: "string set" where
  "total_keys = (\<lambda>f. ''total_'' @ f) ` set total_metrics"

definition average_keys :: "string set" where
  "average_keys = (\<lambda>f. ''avg_'' @ f) ` set average_metrics"

text \<open>Three derived rows with a spend and a ROAS, the last spend not a number.\<close>

definition aggregate_example :: "derived_row list" where
  "aggregate_example =
     [[''spend'' \<mapsto> PFloat (Fin 150), ''roas'' \<mapsto> PFloat (Fin 1)],
      [''spend'' \<mapsto> PFloat (Fin 80), ''roas'' \<mapsto> PFloat (Fin 3)],
      [''spend'' \<mapsto> PFloat NaN]]"

text \<open>
  The header a hint resolves to when it is no header verbatim: the first header, in the
  caller's order, whose normal form is the normal form of the hint, with or without
  spaces; failing that, the first header whose normal form starts with the first word of
  the normal form of the hint.
\<close>

definition hint_match :: "string list \<Rightarrow> string \<Rightarrow> string option" where
  "hint_match columns hint =
     (let nh = normalize_label hint
      in case List.find
                (\<lambda>c. normalize_label c = nh
                     \<or> remove_spaces (normalize_label c) = remove_spaces nh) columns of
           Some c \<Rightarrow> Some c
         | None \<Rightarrow> List.find (\<lambda>c. prefix (hd (py_split nh)) (normalize_label c)) columns)"

section \<open>Header normalisation: facts\<close>

lemma space_isspace [simp]: "py_isspace (CHR '' '')"
  by (simp add: py_isspace_def)

lemma alnum_not_space [simp]: "is_lower_alnum c \<Longrightarrow> \<not> py_isspace c"
  by (auto simp: py_isspace_def is_lower_alnum_def Let_def)

lemma alnum_not_sp [simp]: "is_lower_alnum c \<Longrightarrow> c \<noteq> CHR '' ''"
  by (auto simp: is_lower_alnum_def)

lemma word_char_isspace: "word_char c \<Longrightarrow> py_isspace c = (c = CHR '' '')"
  by (auto simp: word_char_def)

lemma alnum_lower [simp]: "is_lower_alnum c \<Longrightarrow> py_lower_char c = c"
  unfolding is_lower_alnum_def py_lower_char_def Let_def by auto

lemma word_char_lower: "word_char c \<Longrightarrow> py_lower_char c = c"
  by (auto simp: word_char_def) (simp add: py_lower_char_def)

lemma sub_runs_word_char: "list_all word_char (re_sub_runs (\<lambda>c. \<not> is_lower_alnum c) s)"
  by (induction "\<lambda>c. \<not> is_lower_alnum c" s rule: re_sub_runs.induct) (auto simp: word_char_def)

lemma sub_runs_hd:
  "re_sub_runs (\<lambda>c. \<not> is_lower_alnum c) (dropWhile (\<lambda>c. \<not> is_lower_alnum c) s) = d # r \<Longrightarrow> d \<noteq> CHR '' ''"
  by (induction s) (auto split: if_splits)

lemma sub_runs_single_spaced: "single_spaced (re_sub_runs (\<lambda>c. \<not> is_lower_alnum c) s)"
proof (induction "\<lambda>c. \<not> is_lower_alnum c" s rule: re_sub_runs.induct)
  case 1
  show ?case by simp
next
  case (2 c cs)
  show ?case
  proof (cases "is_lower_alnum c")
    case True
    with 2 show ?thesis
      by (cases "re_sub_runs (\<lambda>c. \<not> is_lower_alnum c) cs") auto
  next
    case False
    with 2 show ?thesis
      by (cases "re_sub_runs (\<lambda>c. \<not> is_lower_alnum c) (dropWhile (\<lambda>c. \<not> is_lower_alnum c) cs)")
         (auto dest: sub_runs_hd)
  qed
qed

lemma sub_runs_space_id:
  "list_all word_char s \<Longrightarrow> single_spaced s \<Longrightarrow> re_sub_runs py_isspace s = s"
proof (induction s rule: single_spaced.induct)
  case (1 c d cs)
  then show ?case by (auto simp: word_char_isspace)
qed (auto simp: word_char_isspace)

lemma sub_runs_alnum_id:
  "list_all word_char s \<Longrightarrow> single_spaced s \<Longrightarrow> re_sub_runs (\<lambda>c. \<not> is_lower_alnum c) s = s"
proof (induction s rule: single_spaced.induct)
  case (1 c d cs)
  then show ?case by (auto simp: word_char_def)
qed (auto simp: word_char_def)

lemma single_spaced_iff: "single_spaced s = (\<nexists>a b. s = a @ CHR '' '' # CHR '' '' # b)"
proof (induction s rule: single_spaced.induct)
  case (1 c d cs)
  show ?case
  proof
    assume l: "single_spaced (c # d # cs)"
    show "\<nexists>a b. c # d # cs = a @ CHR '' '' # CHR '' '' # b"
    proof
      assume "\<exists>a b. c # d # cs = a @ CHR '' '' # CHR '' '' # b"
      then obtain a b where e: "c # d # cs = a @ CHR '' '' # CHR '' '' # b" by blast
      show False
      proof (cases a)
        case Nil
        with e l show False by simp
      next
        case (Cons x a')
        with e have "d # cs = a' @ CHR '' '' # CHR '' '' # b" by simp
        moreover from l have "single_spaced (d # cs)" by simp
        ultimately show False using 1 by blast
      qed
    qed
  next
    assume r: "\<nexists>a b. c # d # cs = a @ CHR '' '' # CHR '' '' # b"
    have "c \<noteq> CHR '' '' \<or> d \<noteq> CHR '' ''"
    proof (rule ccontr)
      assume "\<not> (c \<noteq> CHR '' '' \<or> d \<noteq> CHR '' '')"
      then have "c # d # cs = [] @ CHR '' '' # CHR '' '' # cs" by simp
      with r show False by blast
    qed
    moreover have "\<nexists>a b. d # cs = a @ CHR '' '' # CHR '' '' # b"
    proof
      assume "\<exists>a b. d # cs = a @ CHR '' '' # CHR '' '' # b"
      then obtain a b where "d # cs = a @ CHR '' '' # CHR '' '' # b" by blast
      then have "c # d # cs = (c # a) @ CHR '' '' # CHR '' '' # b" by simp
      with r show False by blast
    qed
    ultimately show "single_spaced (c # d # cs)" using 1 by simp
  qed
qed (auto simp: Cons_eq_append_conv)

lemma single_spaced_rev: "single_spaced s \<Longrightarrow> single_spaced (rev s)"
proof -
  assume s: "single_spaced s"
  show ?thesis unfolding single_spaced_iff
  proof
    assume "\<exists>a b. rev s = a @ CHR '' '' # CHR '' '' # b"
    then obtain a b where "rev s = a @ CHR '' '' # CHR '' '' # b" by blast
    then have "rev (rev s) = rev (a @ CHR '' '' # CHR '' '' # b)" by simp
    then have "s = rev b @ CHR '' '' # CHR '' '' # rev a" by simp
    with s show False unfolding single_spaced_iff by blast
  qed
qed

lemma single_spaced_dropWhile: "single_spaced s \<Longrightarrow> single_spaced (dropWhile P s)"
proof -
  assume s: "single_spaced s"
  show ?thesis unfolding single_spaced_iff
  proof
    assume "\<exists>a b. dropWhile P s = a @ CHR '' '' # CHR '' '' # b"
    then obtain a b where "dropWhile P s = a @ CHR '' '' # CHR '' '' # b" by blast
    then have "takeWhile P s @ dropWhile P s = (takeWhile P s @ a) @ CHR '' '' # CHR '' '' # b"
      by simp
    then have "s = (takeWhile P s @ a) @ CHR '' '' # CHR '' '' # b" by simp
    with s show False unfolding single_spaced_iff by blast
  qed
qed

lemma single_spaced_strip: "single_spaced s \<Longrightarrow> single_spaced (str_strip s)"
  by (simp add: str_strip_def single_spaced_rev single_spaced_dropWhile)

lemma list_all_dropWhile: "list_all Q s \<Longrightarrow> list_all Q (dropWhile P s)"
  by (induction s) auto

lemma word_char_strip: "list_all word_char s \<Longrightarrow> list_all word_char (str_strip s)"
  by (simp add: str_strip_def list_all_dropWhile)

lemma strip_ends: "str_strip s = [] \<or> (\<not> py_isspace (hd (str_strip s)) \<and> \<not> py_isspace (last (str_strip s)))"
proof -
  define u where "u = dropWhile py_isspace s"
  define v where "v = dropWhile py_isspace (rev u)"
  have r: "str_strip s = rev v" by (simp add: str_strip_def u_def v_def)
  have hu: "u = [] \<or> \<not> py_isspace (hd u)" unfolding u_def by (metis hd_dropWhile)
  have hv: "v = [] \<or> \<not> py_isspace (hd v)" unfolding v_def by (metis hd_dropWhile)
  show ?thesis
  proof (cases "v = []")
    case True
    with r show ?thesis by simp
  next
    case False
    with hv have 1: "\<not> py_isspace (last (rev v))" by (simp add: last_rev)
    from False have une: "u \<noteq> []" unfolding v_def by auto
    have "rev u = takeWhile py_isspace (rev u) @ v" unfolding v_def by simp
    with False have "last (rev u) = last v" by (metis last_appendR)
    with une have "hd u = last v" by (simp add: last_rev)
    with hu une have 2: "\<not> py_isspace (hd (rev v))" using False by (simp add: hd_rev)
    from 1 2 r show ?thesis by simp
  qed
qed

lemma strip_no_space_at_ends: "\<not> space_at_ends (str_strip s)"
  using strip_ends [of s] by (cases "str_strip s") (auto simp: space_at_ends_def)

lemma dropWhile_rev_last: "xs \<noteq> [] \<Longrightarrow> \<not> P (last xs) \<Longrightarrow> dropWhile P (rev xs) = rev xs"
  by (induction xs rule: rev_induct) auto

lemma strip_id: "\<not> space_at_ends s \<Longrightarrow> list_all word_char s \<Longrightarrow> str_strip s = s"
proof (cases s)
  case Nil
  then show ?thesis by (simp add: str_strip_def)
next
  case (Cons c cs)
  assume a: "\<not> space_at_ends s" "list_all word_char s"
  from a Cons have c: "\<not> py_isspace c" by (auto simp: space_at_ends_def word_char_isspace)
  from a Cons have "word_char (last s)" by (metis last_in_set list.distinct(1) list_all_iff)
  with a Cons have l: "\<not> py_isspace (last s)" by (auto simp: space_at_ends_def word_char_isspace)
  from c Cons have 1: "dropWhile py_isspace s = s" by simp
  from Cons have "s \<noteq> []" by simp
  then have 2: "dropWhile py_isspace (rev s) = rev s"
    using l by (rule dropWhile_rev_last)
  show ?thesis by (simp add: str_strip_def 1 2)
qed

lemma normalize_label_normal_form: "normal_form (normalize_label s)"
  by (simp add: normal_form_def normalize_label_def Let_def sub_runs_space_id sub_runs_word_char
      sub_runs_single_spaced word_char_strip single_spaced_strip strip_no_space_at_ends)

lemma lower_id: "list_all word_char s \<Longrightarrow> str_lower s = s"
  by (induction s) (auto simp: str_lower_def word_char_lower)

lemma normal_form_fixed: "normal_form s \<Longrightarrow> normalize_label s = s"
  by (simp add: normal_form_def normalize_label_def Let_def strip_id lower_id sub_runs_alnum_id
      sub_runs_space_id)


section \<open>Values and floats: facts\<close>

lemma ebind_Inr [simp]: "ebind (Inr x) f = f x"
  by (simp add: ebind_def)

lemma ebind_Inl [simp]: "ebind (Inl e) f = Inl e"
  by (simp add: ebind_def)

lemma py_float_simps [simp]:
  "py_float (PFloat f) = Inr f"
  "py_float PNone = Inl TypeError"
  "py_float (PBool b) = Inr (Fin (if b then 1 else 0))"
  "py_float (PInt n) = float_of_int n"
  by (simp_all add: py_float_def)

lemma is_valid_number_simps [simp]:
  "is_valid_number (PFloat f) = Inr (isfinite f)"
  "is_valid_number PNone = Inr False"
  by (simp_all add: is_valid_number_def)

lemma isfinite_simps [simp]:
  "isfinite (Fin x)" "\<not> isfinite NaN" "\<not> isfinite PosInf" "\<not> isfinite NegInf"
  by (simp_all add: isfinite_def)

lemma feq_Fin [simp]: "feq (Fin x) (Fin y) = (x = y)"
  by (simp add: feq_def)

lemma feq_zero_iff: "feq f (Fin 0) = (f = Fin 0)"
  by (cases f) (auto simp: feq_def)

lemma fless_Fin [simp]: "fless (Fin x) (Fin y) = (x < y)"
  by (simp add: fless_def)

lemma fle_Fin [simp]: "fle (Fin x) (Fin y) = (x \<le> y)"
  by (auto simp: fle_def)

lemma fless_NaN [simp]: "\<not> fless NaN f" "\<not> fless f NaN"
  by (cases f; simp add: fless_def)+

lemma fle_NaN [simp]: "\<not> fle NaN f" "\<not> fle f NaN"
  by (auto simp: fle_def feq_def)

lemma fdiv_Fin: "y \<noteq> 0 \<Longrightarrow> fdiv (Fin x) (Fin y) = Inr (round_double (x / y))"
  by (simp add: fdiv_def)

lemma round_double_finite_iff:
  "isfinite (round_double q) = (\<bar>q\<bar> < max_double_bound)"
  by (auto simp: round_double_def Let_def max_double_bound_def)

lemma ratio_operand_cases:
  "ratio_operand v \<Longrightarrow> v = PNone \<or> (\<exists>f. v = PFloat f)"
  by (cases v) (auto simp: ratio_operand_def)

lemma row_get_simps:
  "row k = None \<Longrightarrow> row_get row k = PNone"
  "row k = Some v \<Longrightarrow> row_get row k = v"
  by (simp_all add: row_get_def)

lemma float_or_absent_cases:
  "float_or_absent v \<Longrightarrow> v = None \<or> (\<exists>f. v = Some (PFloat f))"
  by (auto simp: float_or_absent_def split: option.splits pyval.splits)

lemma foldl_err_inv:
  assumes "foldl_err f s xs = Inr s'" and "P s"
    and "\<And>s x s'. x \<in> set xs \<Longrightarrow> P s \<Longrightarrow> f s x = Inr s' \<Longrightarrow> P s'"
  shows "P s'"
  using assms
proof (induction xs arbitrary: s)
  case Nil
  then show ?case by simp
next
  case (Cons x xs)
  from Cons.prems(1) obtain s1 where 1: "f s x = Inr s1" and 2: "foldl_err f s1 xs = Inr s'"
    by (auto split: sum.splits)
  from Cons.prems(3) [of x s s1] 1 Cons.prems(2) have "P s1" by simp
  show ?case
  proof (rule Cons.IH [OF 2 \<open>P s1\<close>])
    fix s x s' assume "x \<in> set xs" "P s" "f s x = Inr s'"
    then show "P s'" using Cons.prems(3) [of x s s'] by simp
  qed
qed

lemma floor_log2_12: "floor_log2 12 = 3"
  by (simp add: floor_log2_def compute_bitlen)

lemma round_half_even_numeral: "round_half_even (numeral k) = numeral k"
  by (simp add: round_half_even_def)

lemma round_double_12: "round_double 12 = Fin 12"
proof -
  have b: "\<not> max_double_bound \<le> 12" "\<not> 12 \<le> - max_double_bound"
    by (simp_all add: max_double_bound_def)
  have e: "round_double 12 = Fin (of_int (round_half_even (12 / 2 powi (- 49))) * 2 powi (- 49))"
    by (simp add: round_double_def b floor_log2_12 Let_def)
  have v: "(12::rat) / 2 powi (- 49) = 6755399441055744"
    by (simp add: power_int_minus field_simps)
  have u: "rat_of_int 6755399441055744 * 2 powi (- 49) = 12"
    by (simp add: power_int_minus field_simps)
  show ?thesis unfolding e v round_half_even_numeral u ..
qed

lemma fos_12: "float_of_string ''12'' = Some (Fin 12)"
  by (simp add: float_of_string_def to_ascii_def is_digit_def c_isspace_def parse_sign_def
      ascii_lower_def parse_decimal_def parse_exponent_def digits_val_def Let_def round_double_12)

lemma fos_1p2: "float_of_string ''1%2'' = None"
  by (simp add: float_of_string_def to_ascii_def is_digit_def c_isspace_def parse_sign_def
      ascii_lower_def parse_decimal_def parse_exponent_def digits_val_def Let_def)

lemma floor_log2_le:
  assumes "0 < a"
  shows "2 powi (floor_log2 a) \<le> a"
proof -
  obtain n d where q: "quotient_of a = (n, d)" by (cases "quotient_of a")
  then have d: "0 < d" by (rule quotient_of_denom_pos)
  from q have a: "a = of_int n / of_int d" by (rule quotient_of_div)
  with assms d have n: "0 < n" by (simp add: zero_less_divide_iff)
  define k where "k = bitlen n - bitlen d"
  have fl: "floor_log2 a = (if 2 powi k \<le> a then k else k - 1)"
    by (simp add: floor_log2_def q k_def Let_def)
  show ?thesis
  proof (cases "2 powi k \<le> a")
    case True
    with fl show ?thesis by simp
  next
    case False
    from bitlen_bounds [OF n] have bn: "2 ^ nat (bitlen n - 1) \<le> n" by simp
    from bitlen_bounds [OF d] have bd: "d < 2 ^ nat (bitlen d)" by simp
    from n have n1: "1 \<le> bitlen n" by (simp add: bitlen_alt_def)
    have d1: "0 \<le> bitlen d" by (rule bitlen_nonneg)
    have 1: "(2::rat) powi (bitlen n - 1) \<le> of_int n"
    proof -
      have "(2::rat) powi (bitlen n - 1) = 2 ^ nat (bitlen n - 1)"
        using n1 by (simp add: power_int_def)
      also have "\<dots> = of_int (2 ^ nat (bitlen n - 1))" by simp
      also have "\<dots> \<le> of_int n" using bn by (simp only: of_int_le_iff)
      finally show ?thesis .
    qed
    have 2: "of_int d \<le> (2::rat) powi (bitlen d)"
    proof -
      have "(of_int d :: rat) \<le> of_int (2 ^ nat (bitlen d))"
        using bd by (simp only: of_int_le_iff)
      also have "\<dots> = 2 ^ nat (bitlen d)" by simp
      also have "\<dots> = (2::rat) powi (bitlen d)" using d1 by (simp add: power_int_def)
      finally show ?thesis .
    qed
    have "k - 1 = (bitlen n - 1) - bitlen d" by (simp add: k_def)
    then have "(2::rat) powi (k - 1) = 2 powi ((bitlen n - 1) - bitlen d)" by (simp only:)
    also have "\<dots> = 2 powi (bitlen n - 1) / 2 powi (bitlen d)"
      by (rule power_int_diff) simp
    also have "\<dots> \<le> of_int n / of_int d"
      using 1 2 d n by (intro frac_le) simp_all
    finally show ?thesis using fl False a by simp
  qed
qed

lemma round_half_even_ge:
  assumes "1 \<le> x"
  shows "1 \<le> round_half_even x"
proof -
  from assms have "1 \<le> \<lfloor>x\<rfloor>" by simp
  then show ?thesis by (simp add: round_half_even_def Let_def)
qed

lemma max_double_bound_pos: "1 < max_double_bound"
  by (simp add: max_double_bound_def)

lemma round_double_pos:
  assumes "1 \<le> q" and "q < max_double_bound"
  shows "\<exists>y. round_double q = Fin y \<and> 0 < y"
proof -
  define e where "e = max (floor_log2 \<bar>q\<bar>) (- 1022)"
  define ulp :: rat where "ulp = 2 powi (e - 52)"
  have u: "0 < ulp" by (simp add: ulp_def)
  from assms have q: "\<bar>q\<bar> = q" "0 < q" by simp_all
  have "2 powi e \<le> q"
  proof (cases "- 1022 \<le> floor_log2 q")
    case True
    then have "e = floor_log2 q" by (simp add: e_def q)
    with floor_log2_le [OF q(2)] show ?thesis by simp
  next
    case False
    then have "e = - 1022" by (simp add: e_def q)
    moreover have "(2::rat) powi (- 1022) \<le> 1" by (simp add: power_int_minus field_simps)
    ultimately show ?thesis using assms(1) by simp
  qed
  moreover have "ulp \<le> 2 powi e" unfolding ulp_def by (rule power_int_increasing) simp_all
  ultimately have "ulp \<le> q" by simp
  with u have "1 \<le> q / ulp" by (simp add: field_simps)
  then have "1 \<le> round_half_even (q / ulp)" by (rule round_half_even_ge)
  then have "0 < rat_of_int (round_half_even (q / ulp)) * ulp" using u by simp
  moreover have "round_double q = Fin (of_int (round_half_even (q / ulp)) * ulp)"
    using assms max_double_bound_pos by (simp add: round_double_def Let_def e_def ulp_def)
  ultimately show ?thesis by blast
qed

lemma fdiv_by_count:
  assumes "c \<noteq> 0" and "rat_of_nat c < max_double_bound"
  shows "float_of_int (int c) = Inr (round_double (of_nat c))
      \<and> (\<exists>q. fdiv s (round_double (of_nat c)) = Inr q)"
proof -
  from assms(1) have "1 \<le> rat_of_nat c" by (cases c) simp_all
  from round_double_pos [OF this assms(2)] obtain y where
    y: "round_double (of_nat c) = Fin y" "0 < y" by blast
  then have "\<exists>q. fdiv s (round_double (of_nat c)) = Inr q"
    by (cases s) (simp_all add: fdiv_def)
  moreover have "float_of_int (int c) = Inr (round_double (of_nat c))"
    using assms(2) by (simp add: float_of_int_def)
  ultimately show ?thesis by simp
qed

lemma floor_log2_upper:
  assumes "0 < a" and "a < 2 ^ 53"
  shows "floor_log2 a \<le> 52"
proof (rule ccontr)
  assume "\<not> floor_log2 a \<le> 52"
  then have "53 \<le> floor_log2 a" by simp
  then have "(2::rat) powi 53 \<le> 2 powi (floor_log2 a)"
    by (intro power_int_increasing) simp_all
  also have "\<dots> \<le> a" using assms(1) by (rule floor_log2_le)
  finally show False using assms(2) by simp
qed

lemma round_half_even_int: "round_half_even (of_int n) = n"
  by (simp add: round_half_even_def)

lemma round_double_int:
  assumes "\<bar>n\<bar> < 2 ^ 53"
  shows "round_double (of_int n) = Fin (of_int n)"
proof (cases "n = 0")
  case True
  then show ?thesis by (simp add: round_double_def max_double_bound_def)
next
  case False
  define q :: rat where "q = of_int n"
  define e where "e = max (floor_log2 \<bar>q\<bar>) (- 1022)"
  define m where "m = nat (52 - e)"
  from False have qp: "0 < \<bar>q\<bar>" by (simp add: q_def)
  from assms have "rat_of_int \<bar>n\<bar> < rat_of_int (2 ^ 53)" by (simp only: of_int_less_iff)
  then have qb: "\<bar>q\<bar> < 2 ^ 53" by (simp add: q_def)
  from floor_log2_upper [OF qp qb] have e52: "e \<le> 52" by (simp add: e_def)
  then have ulp: "(2::rat) powi (e - 52) = 1 / 2 ^ m"
    by (simp add: m_def power_int_def field_simps)
  have "q / (2 powi (e - 52)) = of_int (n * 2 ^ m)"
    unfolding ulp by (simp add: q_def)
  then have r: "round_half_even (q / (2 powi (e - 52))) = n * 2 ^ m"
    by (simp only: round_half_even_int)
  have "(2::rat) ^ 53 < max_double_bound" by (simp add: max_double_bound_def)
  with qb have b: "\<not> max_double_bound \<le> q" "\<not> q \<le> - max_double_bound" by simp_all
  from False have "q \<noteq> 0" by (simp add: q_def)
  with b have "round_double q = Fin (of_int (round_half_even (q / (2 powi (e - 52)))) * 2 powi (e - 52))"
    by (simp add: round_double_def Let_def e_def)
  also have "\<dots> = Fin (of_int (n * 2 ^ m) * 2 powi (e - 52))" by (simp only: r)
  also have "\<dots> = Fin (of_int (n * 2 ^ m) * (1 / 2 ^ m))" by (simp only: ulp)
  also have "\<dots> = Fin q" by (simp add: q_def)
  finally show ?thesis by (simp add: q_def)
qed

lemma round_double_numeral:
  "numeral k < (2::int) ^ 53 \<Longrightarrow> round_double (numeral k) = Fin (numeral k)"
  using round_double_int [of "numeral k"] by simp


section \<open>Column Resolver: facts\<close>

lemma find_append:
  "List.find P (xs @ ys) = (case List.find P xs of None \<Rightarrow> List.find P ys | Some x \<Rightarrow> Some x)"
  by (induction xs) auto

lemma update_new: "k \<notin> fst ` set al \<Longrightarrow> AList.update k v al = al @ [(k, v)]"
  by (induction al) auto

lemma normalized_columns_fold:
  assumes "\<forall>(c, n)\<in>set acc. n = normalize_label c"
  shows "List.find Q (foldl (\<lambda>d name. AList.update name (normalize_label name) d) acc columns)
     = (case List.find Q acc of
          Some x \<Rightarrow> Some x
        | None \<Rightarrow> map_option (\<lambda>c. (c, normalize_label c))
                   (List.find (\<lambda>c. Q (c, normalize_label c)) columns))"
  using assms
proof (induction columns arbitrary: acc)
  case Nil
  then show ?case by (simp split: option.splits)
next
  case (Cons c cs)
  show ?case
  proof (cases "c \<in> fst ` set acc")
    case True
    then obtain n where in_acc: "(c, n) \<in> set acc" by auto
    with Cons.prems have n: "n = normalize_label c" by auto
    have "map_of acc c = Some (normalize_label c)"
    proof (cases "map_of acc c")
      case None
      with True show ?thesis by (simp add: map_of_eq_None_iff)
    next
      case (Some n')
      then have "(c, n') \<in> set acc" by (rule map_of_SomeD)
      with Cons.prems Some show ?thesis by auto
    qed
    then have u: "AList.update c (normalize_label c) acc = acc" by (rule update_triv)
    have q: "List.find Q acc = None \<Longrightarrow> \<not> Q (c, normalize_label c)"
      using in_acc n by (auto simp: find_None_iff)
    from Cons.IH [OF Cons.prems] u q show ?thesis by (auto split: option.splits)
  next
    case False
    then have u: "AList.update c (normalize_label c) acc = acc @ [(c, normalize_label c)]"
      by (rule update_new)
    from Cons.prems have "\<forall>(c', n)\<in>set (acc @ [(c, normalize_label c)]). n = normalize_label c'"
      by auto
    from Cons.IH [OF this] u show ?thesis by (auto simp: find_append split: option.splits)
  qed
qed

lemma find_normalized_columns:
  "List.find Q (normalized_columns columns)
     = map_option (\<lambda>c. (c, normalize_label c)) (List.find (\<lambda>c. Q (c, normalize_label c)) columns)"
  unfolding normalized_columns_def using normalized_columns_fold [of "[]" Q columns] by simp

lemma keys_fold:
  "fst ` set (foldl (\<lambda>d name. AList.update name (normalize_label name) d) acc columns)
     = fst ` set acc \<union> set columns"
  by (induction columns arbitrary: acc) (auto simp: dom_update)

lemma keys_normalized_columns: "set (map fst (normalized_columns columns)) = set columns"
  using keys_fold [of "[]" columns] by (simp add: normalized_columns_def)

lemma normalized_columns_empty: "normalized_columns columns = [] \<longleftrightarrow> columns = []"
  using keys_normalized_columns [of columns] by (metis list.set_map image_is_empty set_empty)


section \<open>Metric Deriver: facts\<close>

lemma valid_value_simps [simp]:
  "valid_value None = None"
  "valid_value (Some (PFloat (Fin x))) = Some x"
  "valid_value (Some (PFloat NaN)) = None"
  "valid_value (Some (PFloat PosInf)) = None"
  "valid_value (Some (PFloat NegInf)) = None"
  by (simp_all add: valid_value_def)

lemma is_valid_row_get:
  "float_or_absent (m k) \<Longrightarrow> is_valid_number (row_get m k) = Inr (valid_value (m k) \<noteq> None)"
  by (auto simp: row_get_def isfinite_def valid_value_def dest!: float_or_absent_cases split: pyfloat.splits)

lemma py_float_row_get:
  "valid_value (m k) = Some x \<Longrightarrow> py_float (row_get m k) = Inr (Fin x)"
  by (auto simp: row_get_def valid_value_def split: option.splits pyval.splits pyfloat.splits)

lemma compute_ctr_cases_aux:
  assumes "float_or_absent (m ''ctr'')" "float_or_absent (m ''clicks'')"
    "float_or_absent (m ''impressions'')"
  shows "compute_ctr m =
     Inr (case valid_value (m ''ctr'') of
            Some x \<Rightarrow> Fin x
          | None \<Rightarrow>
              (case valid_value (m ''clicks'') of
                 None \<Rightarrow> NaN
               | Some c \<Rightarrow>
                   (case valid_value (m ''impressions'') of
                      None \<Rightarrow> NaN
                    | Some i \<Rightarrow> if i = 0 then NaN else round_double (c / i))))"
  using assms
  by (auto simp: compute_ctr_def Let_def is_valid_row_get py_float_row_get float_quotient_def
      fdiv_Fin split: option.splits)

lemma compute_ratio_cases_aux:
  assumes "float_or_absent (m a)" "float_or_absent (m b)"
  shows "compute_ratio (row_get m a) (row_get m b) =
     Inr (case valid_value (m a) of
            None \<Rightarrow> NaN
          | Some n \<Rightarrow>
              (case valid_value (m b) of
                 None \<Rightarrow> NaN
               | Some d \<Rightarrow> if d = 0 then NaN else round_double (n / d)))"
  using assms
  by (auto simp: compute_ratio_def Let_def is_valid_row_get py_float_row_get float_quotient_def
      fdiv_Fin split: option.splits)

lemma compute_ctr_delta_total:
  assumes "float_or_absent (m ''ctr_7d'')" "float_or_absent (m ''ctr'')"
    "float_or_absent (m ''ctr_prev7'')"
  shows "\<exists>f. compute_ctr_delta m = Inr f"
  using assms
  by (auto simp: compute_ctr_delta_def Let_def is_valid_row_get py_float_row_get
      fdiv_def fsub_def split: option.splits pyfloat.splits)

lemma distinct_mapping_fields: "distinct mapping_fields"
  by (simp add: mapping_fields_def)

lemma available_metrics_iff:
  "c \<in> set (available_metrics mapping) \<longleftrightarrow> c \<in> set mapping_fields \<and> str_truthy (mapping c)"
  by (simp add: available_metrics_def)

lemma coerce_metric_step:
  assumes "coerce_metric record mapping m c = Inr m1" and "c \<in> set (available_metrics mapping)"
  shows "m1 = m(c := coerced record mapping c) \<and> coerced record mapping c \<noteq> None"
proof -
  from assms(2) obtain column where col: "mapping c = Some column" and f: "c \<in> set mapping_fields"
    by (auto simp: available_metrics_iff str_truthy_def split: option.splits)
  then have r: "resolve mapping c = Some column" by (simp add: resolve_def)
  show ?thesis
  proof (cases "c \<in> set numeric_fields")
    case True
    with assms(1) r col show ?thesis
      by (cases "to_float (record_get record column)")
         (auto simp: coerce_metric_def coerced_def Let_def)
  next
    case False
    with assms(1) r col show ?thesis
      by (auto simp: coerce_metric_def coerced_def Let_def)
  qed
qed

lemma coerce_fold:
  assumes "foldl_err (coerce_metric record mapping) m cs = Inr m'" and "distinct cs"
    and "set cs \<subseteq> set (available_metrics mapping)"
  shows "m' k = (if k \<in> set cs then coerced record mapping k else m k)"
  using assms
proof (induction cs arbitrary: m)
  case Nil
  then show ?case by simp
next
  case (Cons c cs)
  from Cons.prems(1) obtain m1 where 1: "coerce_metric record mapping m c = Inr m1"
    and 2: "foldl_err (coerce_metric record mapping) m1 cs = Inr m'"
    by (auto split: sum.splits)
  from Cons.prems(3) have "c \<in> set (available_metrics mapping)" by simp
  from coerce_metric_step [OF 1 this] have m1: "m1 = m(c := coerced record mapping c)" by simp
  from Cons.prems have "m' k = (if k \<in> set cs then coerced record mapping k else m1 k)"
    by (intro Cons.IH [OF 2]) auto
  with m1 Cons.prems(2) show ?case by auto
qed

lemma coerced_not_available:
  "k \<in> set mapping_fields \<Longrightarrow> \<not> str_truthy (mapping k) \<Longrightarrow> k \<notin> set (available_metrics mapping)"
  by (simp add: available_metrics_iff)

lemma coerced_float_or_absent:
  "k \<in> set numeric_fields \<Longrightarrow> float_or_absent (coerced record mapping k)"
  by (auto simp: coerced_def float_or_absent_def split: option.splits sum.splits)

lemma derive_row_cases:
  assumes "derive_row mapping record = Inr row"
  obtains m0 ctr atc delta where
    "\<And>k. m0 k = (if k \<in> set (available_metrics mapping) then coerced record mapping k else None)"
    "compute_ctr m0 = Inr ctr"
    "compute_ratio (row_get (m0(''ctr'' \<mapsto> PFloat ctr)) ''purchases'')
       (row_get (m0(''ctr'' \<mapsto> PFloat ctr)) ''adds_to_cart'') = Inr atc"
    "compute_ctr_delta (m0(''ctr'' \<mapsto> PFloat ctr, ''atc_to_purchase'' \<mapsto> PFloat atc)) = Inr delta"
    "row = m0(''ctr'' \<mapsto> PFloat ctr, ''atc_to_purchase'' \<mapsto> PFloat atc, ''ctr_delta'' \<mapsto> PFloat delta)"
proof -
  from assms obtain m0 where
    z: "foldl_err (coerce_metric record mapping) Map.empty (available_metrics mapping) = Inr m0"
    by (auto simp: derive_row_def ebind_def split: sum.splits)
  with assms obtain ctr where 1: "compute_ctr m0 = Inr ctr"
    by (auto simp: derive_row_def ebind_def split: sum.splits)
  with z assms obtain atc where
    2: "compute_ratio (row_get (m0(''ctr'' \<mapsto> PFloat ctr)) ''purchases'')
       (row_get (m0(''ctr'' \<mapsto> PFloat ctr)) ''adds_to_cart'') = Inr atc"
    by (auto simp: derive_row_def ebind_def Let_def split: sum.splits)
  with z 1 assms obtain delta where
    3: "compute_ctr_delta (m0(''ctr'' \<mapsto> PFloat ctr, ''atc_to_purchase'' \<mapsto> PFloat atc)) = Inr delta"
    by (auto simp: derive_row_def ebind_def Let_def split: sum.splits)
  with z 1 2 assms have
    4: "row = m0(''ctr'' \<mapsto> PFloat ctr, ''atc_to_purchase'' \<mapsto> PFloat atc, ''ctr_delta'' \<mapsto> PFloat delta)"
    by (auto simp: derive_row_def ebind_def Let_def split: sum.splits)
  have d: "distinct (available_metrics mapping)"
    by (simp add: available_metrics_def distinct_mapping_fields)
  have "m0 k = (if k \<in> set (available_metrics mapping) then coerced record mapping k else None)" for k
    using coerce_fold [OF z d, of k] by simp
  with 1 2 3 4 that show thesis by blast
qed

lemma m0_float_or_absent:
  assumes "\<And>k. m0 k = (if k \<in> set (available_metrics mapping) then coerced record mapping k else None)"
    and "k \<in> set numeric_fields"
  shows "float_or_absent (m0 k)"
  using assms coerced_float_or_absent [of k "record" mapping] by (simp add: float_or_absent_def)

lemma derive_row_ok:
  assumes "derive_row mapping record = Inr row"
  shows "derived_row_ok row"
proof -
  from assms obtain m0 ctr atc delta where
    m0: "\<And>k. m0 k = (if k \<in> set (available_metrics mapping) then coerced record mapping k else None)"
    and "compute_ctr m0 = Inr ctr"
    and "compute_ratio (row_get (m0(''ctr'' \<mapsto> PFloat ctr)) ''purchases'')
       (row_get (m0(''ctr'' \<mapsto> PFloat ctr)) ''adds_to_cart'') = Inr atc"
    and "compute_ctr_delta (m0(''ctr'' \<mapsto> PFloat ctr, ''atc_to_purchase'' \<mapsto> PFloat atc)) = Inr delta"
    and row: "row = m0(''ctr'' \<mapsto> PFloat ctr, ''atc_to_purchase'' \<mapsto> PFloat atc, ''ctr_delta'' \<mapsto> PFloat delta)"
    by (rule derive_row_cases) blast
  have "\<forall>k\<in>set numeric_fields. float_or_absent (m0 k)"
    using m0_float_or_absent [OF m0] by blast
  then have "\<forall>k\<in>set numeric_fields. float_or_absent (row k)"
    unfolding row by (simp add: float_or_absent_def)
  moreover have "float_or_absent (row ''atc_to_purchase'')" "float_or_absent (row ''ctr_delta'')"
    unfolding row by (simp_all add: float_or_absent_def)
  ultimately show ?thesis by (simp add: derived_row_ok_def list_all_iff)
qed

lemma derive_row_metrics_ok_aux:
  "foldl_err (\<lambda>results record. ebind (derive_row mapping record) (\<lambda>m. Inr (results @ [m])))
       acc records = Inr rows \<Longrightarrow> list_all derived_row_ok acc \<Longrightarrow> list_all derived_row_ok rows"
proof (induction records arbitrary: acc)
  case Nil
  then show ?case by simp
next
  case (Cons r rs)
  from Cons.prems(1) obtain m where m: "derive_row mapping r = Inr m"
    and 2: "foldl_err (\<lambda>results record. ebind (derive_row mapping record) (\<lambda>m. Inr (results @ [m])))
       (acc @ [m]) rs = Inr rows"
    by (cases "derive_row mapping r") auto
  from derive_row_ok [OF m] Cons.prems(2) have "list_all derived_row_ok (acc @ [m])" by simp
  from Cons.IH [OF 2 this] show ?case .
qed

lemma derive_row_metrics_ok:
  "derive_row_metrics records mapping = Inr rows \<Longrightarrow> list_all derived_row_ok rows"
  unfolding derive_row_metrics_def by (erule derive_row_metrics_ok_aux) simp

lemma derive_row_atc_nan:
  assumes "derive_row mapping record = Inr row"
    and "row ''adds_to_cart'' = Some (PFloat (Fin 0)) \<or> row ''adds_to_cart'' = Some (PFloat NaN)
         \<or> row ''purchases'' = Some (PFloat NaN)"
  shows "row ''atc_to_purchase'' = Some (PFloat NaN)"
proof -
  from assms(1) obtain m0 ctr atc delta where
    m0: "\<And>k. m0 k = (if k \<in> set (available_metrics mapping) then coerced record mapping k else None)"
    and "compute_ctr m0 = Inr ctr"
    and atc: "compute_ratio (row_get (m0(''ctr'' \<mapsto> PFloat ctr)) ''purchases'')
       (row_get (m0(''ctr'' \<mapsto> PFloat ctr)) ''adds_to_cart'') = Inr atc"
    and "compute_ctr_delta (m0(''ctr'' \<mapsto> PFloat ctr, ''atc_to_purchase'' \<mapsto> PFloat atc)) = Inr delta"
    and row: "row = m0(''ctr'' \<mapsto> PFloat ctr, ''atc_to_purchase'' \<mapsto> PFloat atc, ''ctr_delta'' \<mapsto> PFloat delta)"
    by (rule derive_row_cases) blast
  have f: "float_or_absent ((m0(''ctr'' \<mapsto> PFloat ctr)) ''purchases'')"
    "float_or_absent ((m0(''ctr'' \<mapsto> PFloat ctr)) ''adds_to_cart'')"
    using m0_float_or_absent [OF m0, of "''purchases''"] m0_float_or_absent [OF m0, of "''adds_to_cart''"]
    by (simp_all add: numeric_fields_def)
  from assms(2) have "m0 ''adds_to_cart'' = Some (PFloat (Fin 0)) \<or> m0 ''adds_to_cart'' = Some (PFloat NaN)
         \<or> m0 ''purchases'' = Some (PFloat NaN)"
    unfolding row by simp
  with atc have "atc = NaN"
    unfolding compute_ratio_cases_aux [OF f] by (auto split: option.splits)
  then show ?thesis unfolding row by simp
qed

lemma coerce_fold_defined:
  assumes "foldl_err (coerce_metric record mapping) m cs = Inr m'"
    and "set cs \<subseteq> set (available_metrics mapping)" and "k \<in> set cs"
  shows "coerced record mapping k \<noteq> None"
  using assms
proof (induction cs arbitrary: m)
  case Nil
  then show ?case by simp
next
  case (Cons c cs)
  from Cons.prems(1) obtain m1 where 1: "coerce_metric record mapping m c = Inr m1"
    and 2: "foldl_err (coerce_metric record mapping) m1 cs = Inr m'"
    by (auto split: sum.splits)
  from Cons.prems(2) have "c \<in> set (available_metrics mapping)" by simp
  from coerce_metric_step [OF 1 this] have c: "coerced record mapping c \<noteq> None" by simp
  show ?case
  proof (cases "k = c")
    case True
    with c show ?thesis by simp
  next
    case False
    with Cons.prems have "k \<in> set cs" "set cs \<subseteq> set (available_metrics mapping)" by auto
    with Cons.IH [OF 2] show ?thesis by blast
  qed
qed

lemma derive_row_coerced_defined:
  assumes "derive_row mapping record = Inr row" and "k \<in> set (available_metrics mapping)"
  shows "coerced record mapping k \<noteq> None"
proof -
  from assms(1) obtain m0 where
    "foldl_err (coerce_metric record mapping) Map.empty (available_metrics mapping) = Inr m0"
    by (auto simp: derive_row_def ebind_def split: sum.splits)
  from coerce_fold_defined [OF this _ assms(2)] show ?thesis by simp
qed

lemma mapping_fields_not_synthetic:
  "c \<in> set mapping_fields \<Longrightarrow> c \<noteq> ''atc_to_purchase'' \<and> c \<noteq> ''ctr_delta''"
  by (auto simp: mapping_fields_def)

lemma ctr_fields:
  "''ctr'' \<in> set mapping_fields" "''ctr'' \<in> set numeric_fields"
  "''clicks'' \<in> set numeric_fields" "''impressions'' \<in> set numeric_fields"
  by (simp_all add: mapping_fields_def numeric_fields_def)

lemma filter_percent_trailing:
  assumes "CHR ''%'' \<notin> set (butlast s)"
  shows "filter (\<lambda>c. c \<noteq> CHR ''%'') s = strip_trailing_percent s"
proof (cases "s = []")
  case True
  then show ?thesis by (simp add: strip_trailing_percent_def)
next
  case False
  then have s: "s = butlast s @ [last s]" by simp
  from assms have b: "filter (\<lambda>c. c \<noteq> CHR ''%'') (butlast s) = butlast s"
    by (simp add: filter_id_conv) metis
  have "filter (\<lambda>c. c \<noteq> CHR ''%'') s
      = filter (\<lambda>c. c \<noteq> CHR ''%'') (butlast s) @ filter (\<lambda>c. c \<noteq> CHR ''%'') [last s]"
    by (subst s) (simp only: filter_append)
  also have "\<dots> = butlast s @ (if last s = CHR ''%'' then [] else [last s])"
    by (simp add: b)
  also have "\<dots> = strip_trailing_percent s"
    using False by (simp add: strip_trailing_percent_def)
  finally show ?thesis .
qed

lemma derived_ctr_aux:
  assumes "derive_row mapping record = Inr row"
  shows "\<exists>m0. row ''clicks'' = m0 ''clicks'' \<and> row ''impressions'' = m0 ''impressions''
     \<and> m0 ''ctr'' = (if str_truthy (mapping ''ctr'') then coerced record mapping ''ctr'' else None)
     \<and> float_or_absent (m0 ''ctr'') \<and> float_or_absent (m0 ''clicks'')
     \<and> float_or_absent (m0 ''impressions'')
     \<and> (\<forall>c. c \<in> set mapping_fields \<and> c \<noteq> ''ctr'' \<longrightarrow> row c = m0 c)
     \<and> (\<forall>c. m0 c = (if c \<in> set (available_metrics mapping) then coerced record mapping c else None))
     \<and> (\<exists>f. compute_ctr m0 = Inr f \<and> row ''ctr'' = Some (PFloat f))"
proof -
  from assms obtain m0 ctr atc delta where
    m0: "\<And>k. m0 k = (if k \<in> set (available_metrics mapping) then coerced record mapping k else None)"
    and ctr: "compute_ctr m0 = Inr ctr"
    and "compute_ratio (row_get (m0(''ctr'' \<mapsto> PFloat ctr)) ''purchases'')
       (row_get (m0(''ctr'' \<mapsto> PFloat ctr)) ''adds_to_cart'') = Inr atc"
    and "compute_ctr_delta (m0(''ctr'' \<mapsto> PFloat ctr, ''atc_to_purchase'' \<mapsto> PFloat atc)) = Inr delta"
    and row: "row = m0(''ctr'' \<mapsto> PFloat ctr, ''atc_to_purchase'' \<mapsto> PFloat atc, ''ctr_delta'' \<mapsto> PFloat delta)"
    by (rule derive_row_cases) blast
  have 1: "row ''clicks'' = m0 ''clicks''" "row ''impressions'' = m0 ''impressions''"
    "row ''ctr'' = Some (PFloat ctr)"
    unfolding row by simp_all
  have 2: "m0 ''ctr'' = (if str_truthy (mapping ''ctr'') then coerced record mapping ''ctr'' else None)"
    by (simp add: m0 available_metrics_iff ctr_fields)
  have 3: "float_or_absent (m0 ''ctr'')" "float_or_absent (m0 ''clicks'')"
    "float_or_absent (m0 ''impressions'')"
    using m0_float_or_absent [OF m0] by (simp_all add: ctr_fields)
  have 4: "\<forall>c. c \<in> set mapping_fields \<and> c \<noteq> ''ctr'' \<longrightarrow> row c = m0 c"
    unfolding row using mapping_fields_not_synthetic by auto
  from 1 2 3 4 m0 ctr show ?thesis by blast
qed

lemma fos_12_percent: "float_of_string (filter (\<lambda>c. c \<noteq> CHR ''%'') ''12%'') = Some (Fin 12)"
  by (simp add: fos_12)

lemma spend_row_ex:
  "\<exists>row. derive_row [''spend'' \<mapsto> ''Spend'', ''campaign_name'' \<mapsto> ''Campaign'']
            [(''Spend'', PStr ''12%''), (''Campaign'', PStr ''Spring'')] = Inr row"
  by (simp add: derive_row_def available_metrics_def mapping_fields_def str_truthy_def
      coerce_metric_def resolve_def record_get_def numeric_fields_def to_float_def fos_12
      compute_ctr_def compute_ratio_def compute_ctr_delta_def row_get_def Let_def)

lemma quarter_row_ex:
  "\<exists>row. derive_row [''clicks'' \<mapsto> ''Clicks'', ''impressions'' \<mapsto> ''Impressions'']
            [(''Clicks'', PFloat (Fin 3)), (''Impressions'', PFloat (Fin 12))] = Inr row
         \<and> row ''clicks'' = Some (PFloat (Fin 3)) \<and> row ''impressions'' = Some (PFloat (Fin 12))"
  by (simp add: derive_row_def available_metrics_def mapping_fields_def str_truthy_def
      coerce_metric_def resolve_def record_get_def numeric_fields_def to_float_def
      compute_ctr_def compute_ratio_def compute_ctr_delta_def row_get_def Let_def
      float_quotient_def fdiv_def)


section \<open>Rule Engine: facts\<close>

lemma derived_row_ok_spend:
  "derived_row_ok row \<Longrightarrow> float_or_absent (row ''spend'') \<and> float_or_absent (row ''purchases'')"
  by (simp add: derived_row_ok_def numeric_fields_def)

lemma row_offends_ok:
  assumes "derived_row_ok row"
  shows "row_offends row = Inr (spends_without_purchases row)"
proof -
  from assms have s: "float_or_absent (row ''spend'')" and p: "float_or_absent (row ''purchases'')"
    by (simp_all add: derived_row_ok_spend)
  from s show ?thesis
  proof (rule float_or_absent_cases [THEN disjE])
    assume "row ''spend'' = None"
    then show ?thesis
      by (simp add: row_offends_def spends_without_purchases_def row_get_def truthy_def)
  next
    assume "\<exists>f. row ''spend'' = Some (PFloat f)"
    then obtain f where f: "row ''spend'' = Some (PFloat f)" by blast
    from p show ?thesis
    proof (rule float_or_absent_cases [THEN disjE])
      assume "row ''purchases'' = None"
      with f show ?thesis
        by (cases f)
           (auto simp: row_offends_def spends_without_purchases_def row_get_def truthy_def
                       py_gt_int_def py_eq_int_def fless_def Let_def)
    next
      assume "\<exists>g. row ''purchases'' = Some (PFloat g)"
      then obtain g where "row ''purchases'' = Some (PFloat g)" by blast
      with f show ?thesis
        by (cases f)
           (auto simp: row_offends_def spends_without_purchases_def row_get_def truthy_def
                       py_gt_int_def py_eq_int_def fless_def feq_zero_iff Let_def)
    qed
  qed
qed

lemma any_row_offends_ok:
  "list_all derived_row_ok rows \<Longrightarrow>
   any_row_offends rows = Inr (list_ex spends_without_purchases rows)"
  by (induction rows) (auto simp: row_offends_ok)

lemma offenders_ok:
  "list_all derived_row_ok rows \<Longrightarrow>
   offenders rows = Inr (map offender_entry (filter spends_without_purchases rows))"
  by (induction rows) (auto simp: row_offends_ok)

lemma run_rules_result:
  "run_rules rs s acc = Inr found \<Longrightarrow>
   found = acc @ concat (map (\<lambda>r. case build_insight r s of Inr i \<Rightarrow> [i] | Inl _ \<Rightarrow> [])
                          (filter (fires s) rs))"
proof (induction rs arbitrary: acc)
  case Nil
  then show ?case by simp
next
  case (Cons r rs)
  show ?case
  proof (cases "applies r s")
    case (Inl e)
    with Cons.prems show ?thesis by simp
  next
    case (Inr b)
    show ?thesis
    proof (cases b)
      case False
      with Inr Cons.prems have "run_rules rs s acc = Inr found" by simp
      from Cons.IH [OF this] Inr False show ?thesis by (simp add: fires_def)
    next
      case True
      show ?thesis
      proof (cases "build_insight r s")
        case (Inl e)
        with Inr True Cons.prems show ?thesis by simp
      next
        case i: (Inr i)
        with Inr True Cons.prems have "run_rules rs s (acc @ [i]) = Inr found" by simp
        from Cons.IH [OF this] Inr True i show ?thesis by (simp add: fires_def)
      qed
    qed
  qed
qed

lemma run_rules_total:
  "\<forall>r\<in>set rs. (\<exists>b. applies r s = Inr b) \<and> (\<exists>i. build_insight r s = Inr i) \<Longrightarrow>
   \<exists>found. run_rules rs s acc = Inr found"
proof (induction rs arbitrary: acc)
  case Nil
  then show ?case by simp
next
  case (Cons r rs)
  then obtain b i where "applies r s = Inr b" "build_insight r s = Inr i" by auto
  with Cons show ?case by (cases b) auto
qed

lemma default_rules_total:
  assumes "list_all derived_row_ok (per_row s)"
  shows "\<forall>r\<in>set default_rules. (\<exists>b. applies r s = Inr b) \<and> (\<exists>i. build_insight r s = Inr i)"
  using assms
  by (simp add: default_rules_def RoasOneToTwoRule_def HealthyCtrWeakConversionRule_def
      HighFrequencyFatigueRule_def CtrDropRule_def SpendZeroPurchasesRule_def
      roas_applies_def roas_build_def healthy_ctr_applies_def healthy_ctr_build_def
      frequency_applies_def frequency_build_def ctr_drop_applies_def ctr_drop_build_def
      spend_applies_def spend_build_def any_row_offends_ok offenders_ok)

lemma insight_agent_total:
  "list_all derived_row_ok (per_row s) \<Longrightarrow> \<exists>found. insight_agent [] s = Inr found"
  unfolding insight_agent_def agent_rules_def
  using run_rules_total [OF default_rules_total] by simp

lemma build_code:
  "r \<in> set default_rules \<Longrightarrow> build_insight r s = Inr i \<Longrightarrow> code i = rule_code r"
  by (auto simp add: default_rules_def RoasOneToTwoRule_def HealthyCtrWeakConversionRule_def
      HighFrequencyFatigueRule_def CtrDropRule_def SpendZeroPurchasesRule_def
      roas_build_def healthy_ctr_build_def frequency_build_def ctr_drop_build_def spend_build_def
      ebind_def split: sum.splits)

lemma codes_of_built:
  "\<forall>r\<in>set rs. \<exists>i. build_insight r s = Inr i \<and> code i = rule_code r \<Longrightarrow>
   map code (concat (map (\<lambda>r. case build_insight r s of Inr i \<Rightarrow> [i] | Inl _ \<Rightarrow> []) rs))
     = map rule_code rs"
  by (induction rs) auto

lemma found_elem:
  assumes "insight_agent [] s = Inr found"
  shows "i \<in> set found \<longleftrightarrow> (\<exists>r\<in>set default_rules. fires s r \<and> build_insight r s = Inr i)"
proof -
  from assms have "found = concat (map (\<lambda>r. case build_insight r s of Inr i \<Rightarrow> [i] | Inl _ \<Rightarrow> [])
                          (filter (fires s) default_rules))"
    using run_rules_result [of default_rules s "[]" found]
    by (simp add: insight_agent_def agent_rules_def)
  then show ?thesis by (auto split: sum.splits)
qed


lemma rule_code_simps:
  "rule_code RoasOneToTwoRule = ''roas_1_2''"
  "rule_code HealthyCtrWeakConversionRule = ''ctr_healthy_low_conversion''"
  "rule_code HighFrequencyFatigueRule = ''frequency_fatigue''"
  "rule_code CtrDropRule = ''ctr_drop_vs_prev7''"
  "rule_code SpendZeroPurchasesRule = ''spend_no_purchases''"
  by (simp_all add: RoasOneToTwoRule_def HealthyCtrWeakConversionRule_def
      HighFrequencyFatigueRule_def CtrDropRule_def SpendZeroPurchasesRule_def)

lemma default_rule_codes:
  "map rule_code default_rules =
     [''roas_1_2'', ''ctr_healthy_low_conversion'', ''frequency_fatigue'', ''ctr_drop_vs_prev7'',
      ''spend_no_purchases'']"
  by (simp add: default_rules_def rule_code_simps)

lemma default_rules_cases:
  assumes "r \<in> set default_rules"
  shows "r = RoasOneToTwoRule \<or> r = HealthyCtrWeakConversionRule \<or> r = HighFrequencyFatigueRule
         \<or> r = CtrDropRule \<or> r = SpendZeroPurchasesRule"
  using assms unfolding default_rules_def by simp

lemma rule_of_code:
  "r \<in> set default_rules \<Longrightarrow> rule_code r = ''spend_no_purchases'' \<Longrightarrow> r = SpendZeroPurchasesRule"
  "r \<in> set default_rules \<Longrightarrow> rule_code r = ''roas_1_2'' \<Longrightarrow> r = RoasOneToTwoRule"
  by (drule default_rules_cases, elim disjE, simp_all add: rule_code_simps)+

lemma rules_in_default:
  "SpendZeroPurchasesRule \<in> set default_rules" "RoasOneToTwoRule \<in> set default_rules"
  by (simp_all add: default_rules_def)

lemma spend_rule_simps:
  "rule_code SpendZeroPurchasesRule = ''spend_no_purchases''"
  "applies SpendZeroPurchasesRule = spend_applies"
  "build_insight SpendZeroPurchasesRule = spend_build"
  by (simp_all add: SpendZeroPurchasesRule_def)

lemma roas_rule_simps:
  "rule_code RoasOneToTwoRule = ''roas_1_2''"
  "applies RoasOneToTwoRule = roas_applies"
  "build_insight RoasOneToTwoRule = roas_build"
  by (simp_all add: RoasOneToTwoRule_def)

lemma offender_entry_eq:
  "spends_without_purchases row \<Longrightarrow>
   offender_entry row =
     [(''spend'', row_get row ''spend''),
      (''purchases'', case row ''purchases'' of None \<Rightarrow> PFloat (Fin 0) | Some v \<Rightarrow> v),
      (''campaign_name'', row_get row ''campaign_name''),
      (''ad_name'', row_get row ''ad_name'')]"
  by (auto simp: offender_entry_def spends_without_purchases_def row_get_default_def row_get_def
      split: option.splits pyval.splits)


lemma scenario_rows_ok: "list_all derived_row_ok (per_row scenario_summary)"
  by (simp add: scenario_summary_def scenario_rows_def derived_row_ok_def numeric_fields_def
      float_or_absent_def)

lemma scenario_offending:
  "filter spends_without_purchases scenario_rows = [scenario_rows ! 1]"
  by (simp add: scenario_rows_def spends_without_purchases_def)

lemma scenario_fires:
  "filter (fires scenario_summary) default_rules = [RoasOneToTwoRule, SpendZeroPurchasesRule]"
  by (simp add: default_rules_def fires_def RoasOneToTwoRule_def HealthyCtrWeakConversionRule_def
      HighFrequencyFatigueRule_def CtrDropRule_def SpendZeroPurchasesRule_def
      roas_applies_def healthy_ctr_applies_def frequency_applies_def ctr_drop_applies_def
      spend_applies_def any_row_offends_ok [OF scenario_rows_ok] agg_get_def)
     (simp add: scenario_summary_def list_ex_iff scenario_rows_def spends_without_purchases_def)

section \<open>Aggregation: facts\<close>

lemma ok_total:
  "derived_row_ok row \<Longrightarrow> f \<in> set total_metrics \<Longrightarrow> float_or_absent (row f)"
  by (auto simp: derived_row_ok_def total_metrics_def numeric_fields_def)

lemma ok_average:
  "derived_row_ok row \<Longrightarrow> f \<in> set average_metrics \<Longrightarrow> float_or_absent (row f)"
  by (auto simp: derived_row_ok_def average_metrics_def numeric_fields_def)

lemma add_total_ok:
  assumes "float_or_absent (row f)"
  shows "add_total row (sd, cd) f =
     Inr (case valid_value (row f) of
            None \<Rightarrow> sd
          | Some x \<Rightarrow> AList.update (''total_'' @ f) (fadd (sums_get sd (''total_'' @ f)) (Fin x)) sd,
          cd)"
  using assms
  by (auto simp: add_total_def Let_def is_valid_row_get py_float_row_get split: option.splits)

lemma add_average_ok:
  assumes "float_or_absent (row f)"
  shows "add_average row (sd, cd) f =
     Inr (case valid_value (row f) of
            None \<Rightarrow> (sd, cd)
          | Some x \<Rightarrow>
              (AList.update (''avg_'' @ f) (fadd (sums_get sd (''avg_'' @ f)) (Fin x)) sd,
               AList.update (''avg_'' @ f) (counts_get cd (''avg_'' @ f) + 1) cd))"
  using assms
  by (auto simp: add_average_def Let_def is_valid_row_get py_float_row_get split: option.splits)

lemma map_of_total_step:
  "map_of (case v of None \<Rightarrow> sd
           | Some x \<Rightarrow> AList.update key (fadd (sums_get sd key) (Fin x)) sd) k
   = (if k = key then acc_step v (map_of sd k) else map_of sd k)"
  by (auto simp: acc_step_def sums_get_def update_conv' split: option.splits)

lemma map_of_count_step:
  "map_of (case v of None \<Rightarrow> cd
           | Some x \<Rightarrow> AList.update key (counts_get cd key + 1) cd) k
   = (if k = key then cnt_step v (map_of cd k) else map_of cd k)"
  by (auto simp: cnt_step_def counts_get_def update_conv' split: option.splits)

lemma distinct_count_step:
  "distinct (map fst cd) \<Longrightarrow>
   distinct (map fst (case v of None \<Rightarrow> cd
           | Some x \<Rightarrow> AList.update key (counts_get cd key + 1) cd))"
  by (auto simp: distinct_update split: option.splits)

lemma totals_fold:
  assumes "distinct fs" and "\<forall>f\<in>set fs. float_or_absent (row f)"
  shows "\<exists>sd'. foldl_err (add_total row) (sd, cd) fs = Inr (sd', cd)
     \<and> (\<forall>k. map_of sd' k =
           (if k \<in> (\<lambda>f. ''total_'' @ f) ` set fs then acc_step (valid_value (row (drop 6 k))) (map_of sd k)
            else map_of sd k))"
  using assms
proof (induction fs arbitrary: sd)
  case Nil
  then show ?case by simp
next
  case (Cons f fs)
  define sd1 where "sd1 = (case valid_value (row f) of
            None \<Rightarrow> sd
          | Some x \<Rightarrow> AList.update (''total_'' @ f) (fadd (sums_get sd (''total_'' @ f)) (Fin x)) sd)"
  from Cons.prems have st: "add_total row (sd, cd) f = Inr (sd1, cd)"
    by (simp add: add_total_ok sd1_def)
  from Cons.prems have "distinct fs" "\<forall>f\<in>set fs. float_or_absent (row f)" by simp_all
  from Cons.IH [OF this, of sd1] obtain sd' where
    r: "foldl_err (add_total row) (sd1, cd) fs = Inr (sd', cd)"
    and m: "\<forall>k. map_of sd' k =
           (if k \<in> (\<lambda>f. ''total_'' @ f) ` set fs then acc_step (valid_value (row (drop 6 k))) (map_of sd1 k)
            else map_of sd1 k)"
    by blast
  have s1: "map_of sd1 k = (if k = ''total_'' @ f then acc_step (valid_value (row f)) (map_of sd k)
      else map_of sd k)" for k
    unfolding sd1_def by (rule map_of_total_step)
  from Cons.prems(1) have nf: "''total_'' @ f \<notin> (\<lambda>f. ''total_'' @ f) ` set fs" by auto
  have "map_of sd' k =
           (if k \<in> (\<lambda>f. ''total_'' @ f) ` set (f # fs) then acc_step (valid_value (row (drop 6 k))) (map_of sd k)
            else map_of sd k)" for k
  proof (cases "k = ''total_'' @ f")
    case True
    with m nf s1 show ?thesis by simp
  next
    case False
    with m s1 show ?thesis by auto
  qed
  with st r show ?case by simp
qed

lemma averages_fold:
  assumes "distinct fs" and "\<forall>f\<in>set fs. float_or_absent (row f)"
  shows "\<exists>sd' cd'. foldl_err (add_average row) (sd, cd) fs = Inr (sd', cd')
     \<and> (\<forall>k. map_of sd' k =
           (if k \<in> (\<lambda>f. ''avg_'' @ f) ` set fs then acc_step (valid_value (row (drop 4 k))) (map_of sd k)
            else map_of sd k))
     \<and> (\<forall>k. map_of cd' k =
           (if k \<in> (\<lambda>f. ''avg_'' @ f) ` set fs then cnt_step (valid_value (row (drop 4 k))) (map_of cd k)
            else map_of cd k))
     \<and> (distinct (map fst cd) \<longrightarrow> distinct (map fst cd'))"
  using assms
proof (induction fs arbitrary: sd cd)
  case Nil
  then show ?case by simp
next
  case (Cons f fs)
  define sd1 where "sd1 = (case valid_value (row f) of
            None \<Rightarrow> sd
          | Some x \<Rightarrow> AList.update (''avg_'' @ f) (fadd (sums_get sd (''avg_'' @ f)) (Fin x)) sd)"
  define cd1 where "cd1 = (case valid_value (row f) of
            None \<Rightarrow> cd
          | Some x \<Rightarrow> AList.update (''avg_'' @ f) (counts_get cd (''avg_'' @ f) + 1) cd)"
  from Cons.prems have st: "add_average row (sd, cd) f = Inr (sd1, cd1)"
    by (simp add: add_average_ok sd1_def cd1_def split: option.splits)
  from Cons.prems have "distinct fs" "\<forall>f\<in>set fs. float_or_absent (row f)" by simp_all
  from Cons.IH [OF this, of sd1 cd1] obtain sd' cd' where
    r: "foldl_err (add_average row) (sd1, cd1) fs = Inr (sd', cd')"
    and m: "\<forall>k. map_of sd' k =
           (if k \<in> (\<lambda>f. ''avg_'' @ f) ` set fs then acc_step (valid_value (row (drop 4 k))) (map_of sd1 k)
            else map_of sd1 k)"
    and c: "\<forall>k. map_of cd' k =
           (if k \<in> (\<lambda>f. ''avg_'' @ f) ` set fs then cnt_step (valid_value (row (drop 4 k))) (map_of cd1 k)
            else map_of cd1 k)"
    and d: "distinct (map fst cd1) \<longrightarrow> distinct (map fst cd')"
    by blast
  have s1: "map_of sd1 k = (if k = ''avg_'' @ f then acc_step (valid_value (row f)) (map_of sd k)
      else map_of sd k)" for k
    unfolding sd1_def by (rule map_of_total_step)
  have c1: "map_of cd1 k = (if k = ''avg_'' @ f then cnt_step (valid_value (row f)) (map_of cd k)
      else map_of cd k)" for k
    unfolding cd1_def by (rule map_of_count_step)
  have d1: "distinct (map fst cd) \<longrightarrow> distinct (map fst cd1)"
    unfolding cd1_def using distinct_count_step by blast
  from Cons.prems(1) have nf: "''avg_'' @ f \<notin> (\<lambda>f. ''avg_'' @ f) ` set fs" by auto
  have ms: "map_of sd' k =
           (if k \<in> (\<lambda>f. ''avg_'' @ f) ` set (f # fs) then acc_step (valid_value (row (drop 4 k))) (map_of sd k)
            else map_of sd k)" for k
  proof (cases "k = ''avg_'' @ f")
    case True
    with m nf s1 show ?thesis by simp
  next
    case False
    with m s1 show ?thesis by auto
  qed
  have mc: "map_of cd' k =
           (if k \<in> (\<lambda>f. ''avg_'' @ f) ` set (f # fs) then cnt_step (valid_value (row (drop 4 k))) (map_of cd k)
            else map_of cd k)" for k
  proof (cases "k = ''avg_'' @ f")
    case True
    with c nf c1 show ?thesis by simp
  next
    case False
    with c c1 show ?thesis by auto
  qed
  from st r ms mc d d1 show ?case by simp
qed

lemma keys_disjoint: "k \<in> average_keys \<Longrightarrow> k \<notin> total_keys"
  by (auto simp: average_keys_def total_keys_def)

lemma distinct_metric_lists: "distinct total_metrics" "distinct average_metrics"
  by (simp_all add: total_metrics_def average_metrics_def)

lemma aggregate_row_ok:
  assumes "derived_row_ok row"
  shows "\<exists>sd' cd'. aggregate_row (sd, cd) row = Inr (sd', cd')
     \<and> (\<forall>k. map_of sd' k =
           (if k \<in> total_keys then acc_step (valid_value (row (drop 6 k))) (map_of sd k)
            else if k \<in> average_keys then acc_step (valid_value (row (drop 4 k))) (map_of sd k)
            else map_of sd k))
     \<and> (\<forall>k. map_of cd' k =
           (if k \<in> average_keys then cnt_step (valid_value (row (drop 4 k))) (map_of cd k)
            else map_of cd k))
     \<and> (distinct (map fst cd) \<longrightarrow> distinct (map fst cd'))"
proof -
  from assms have t: "\<forall>f\<in>set total_metrics. float_or_absent (row f)"
    and a: "\<forall>f\<in>set average_metrics. float_or_absent (row f)"
    using ok_total ok_average by blast+
  from totals_fold [OF distinct_metric_lists(1) t, of sd cd] obtain sd1 where
    1: "foldl_err (add_total row) (sd, cd) total_metrics = Inr (sd1, cd)"
    and m1: "\<forall>k. map_of sd1 k =
           (if k \<in> total_keys then acc_step (valid_value (row (drop 6 k))) (map_of sd k)
            else map_of sd k)"
    unfolding total_keys_def by blast
  from averages_fold [OF distinct_metric_lists(2) a, of sd1 cd] obtain sd' cd' where
    2: "foldl_err (add_average row) (sd1, cd) average_metrics = Inr (sd', cd')"
    and m2: "\<forall>k. map_of sd' k =
           (if k \<in> average_keys then acc_step (valid_value (row (drop 4 k))) (map_of sd1 k)
            else map_of sd1 k)"
    and c2: "\<forall>k. map_of cd' k =
           (if k \<in> average_keys then cnt_step (valid_value (row (drop 4 k))) (map_of cd k)
            else map_of cd k)"
    and d2: "distinct (map fst cd) \<longrightarrow> distinct (map fst cd')"
    unfolding average_keys_def by blast
  have r: "aggregate_row (sd, cd) row = Inr (sd', cd')"
    by (simp add: aggregate_row_def 1 2)
  have "map_of sd' k =
           (if k \<in> total_keys then acc_step (valid_value (row (drop 6 k))) (map_of sd k)
            else if k \<in> average_keys then acc_step (valid_value (row (drop 4 k))) (map_of sd k)
            else map_of sd k)" for k
    using m1 m2 keys_disjoint [of k] by auto
  with r c2 d2 show ?thesis by blast
qed

lemma rows_fold:
  assumes "list_all derived_row_ok rows"
  shows "\<exists>sd' cd'. foldl_err aggregate_row (sd, cd) rows = Inr (sd', cd')
     \<and> (\<forall>k. map_of sd' k =
           (if k \<in> total_keys
            then foldl (\<lambda>a row. acc_step (valid_value (row (drop 6 k))) a) (map_of sd k) rows
            else if k \<in> average_keys
            then foldl (\<lambda>a row. acc_step (valid_value (row (drop 4 k))) a) (map_of sd k) rows
            else map_of sd k))
     \<and> (\<forall>k. map_of cd' k =
           (if k \<in> average_keys
            then foldl (\<lambda>a row. cnt_step (valid_value (row (drop 4 k))) a) (map_of cd k) rows
            else map_of cd k))
     \<and> (distinct (map fst cd) \<longrightarrow> distinct (map fst cd'))"
  using assms
proof (induction rows arbitrary: sd cd)
  case Nil
  then show ?case by simp
next
  case (Cons row rows)
  then have "derived_row_ok row" "list_all derived_row_ok rows" by simp_all
  from aggregate_row_ok [OF this(1), of sd cd] obtain sd1 cd1 where
    1: "aggregate_row (sd, cd) row = Inr (sd1, cd1)"
    and m1: "\<forall>k. map_of sd1 k =
           (if k \<in> total_keys then acc_step (valid_value (row (drop 6 k))) (map_of sd k)
            else if k \<in> average_keys then acc_step (valid_value (row (drop 4 k))) (map_of sd k)
            else map_of sd k)"
    and c1: "\<forall>k. map_of cd1 k =
           (if k \<in> average_keys then cnt_step (valid_value (row (drop 4 k))) (map_of cd k)
            else map_of cd k)"
    and d1: "distinct (map fst cd) \<longrightarrow> distinct (map fst cd1)"
    by blast
  from Cons.IH [OF \<open>list_all derived_row_ok rows\<close>, of sd1 cd1] obtain sd' cd' where
    2: "foldl_err aggregate_row (sd1, cd1) rows = Inr (sd', cd')"
    and m2: "\<forall>k. map_of sd' k =
           (if k \<in> total_keys
            then foldl (\<lambda>a row. acc_step (valid_value (row (drop 6 k))) a) (map_of sd1 k) rows
            else if k \<in> average_keys
            then foldl (\<lambda>a row. acc_step (valid_value (row (drop 4 k))) a) (map_of sd1 k) rows
            else map_of sd1 k)"
    and c2: "\<forall>k. map_of cd' k =
           (if k \<in> average_keys
            then foldl (\<lambda>a row. cnt_step (valid_value (row (drop 4 k))) a) (map_of cd1 k) rows
            else map_of cd1 k)"
    and d2: "distinct (map fst cd1) \<longrightarrow> distinct (map fst cd')"
    by blast
  have r: "foldl_err aggregate_row (sd, cd) (row # rows) = Inr (sd', cd')"
    by (simp add: 1 2)
  have ms: "map_of sd' k =
           (if k \<in> total_keys
            then foldl (\<lambda>a row. acc_step (valid_value (row (drop 6 k))) a) (map_of sd k) (row # rows)
            else if k \<in> average_keys
            then foldl (\<lambda>a row. acc_step (valid_value (row (drop 4 k))) a) (map_of sd k) (row # rows)
            else map_of sd k)" for k
    using m1 m2 by simp
  have mc: "map_of cd' k =
           (if k \<in> average_keys
            then foldl (\<lambda>a row. cnt_step (valid_value (row (drop 4 k))) a) (map_of cd k) (row # rows)
            else map_of cd k)" for k
    using c1 c2 by simp
  from r ms mc d1 d2 show ?case by blast
qed

lemma valid_values_Cons:
  "valid_values (row # rows) f =
     (case valid_value (row f) of None \<Rightarrow> valid_values rows f | Some x \<Rightarrow> x # valid_values rows f)"
  by (simp add: valid_values_def map_filter_simps split: option.splits)

lemma fsum_snoc: "fsum (xs @ [x]) = fadd (fsum xs) (Fin x)"
  by (simp add: fsum_def)

lemma acc_fold:
  "foldl (\<lambda>a row. acc_step (valid_value (row f)) a) (if xs = [] then None else Some (fsum xs)) rows
   = (if xs @ valid_values rows f = [] then None else Some (fsum (xs @ valid_values rows f)))"
proof (induction rows arbitrary: xs)
  case Nil
  then show ?case by (simp add: valid_values_def map_filter_simps)
next
  case (Cons row rows)
  show ?case
  proof (cases "valid_value (row f)")
    case None
    with Cons [of xs] show ?thesis by (simp add: valid_values_Cons acc_step_def)
  next
    case (Some x)
    have "acc_step (Some x) (if xs = [] then None else Some (fsum xs))
        = (if xs @ [x] = [] then None else Some (fsum (xs @ [x])))"
      by (simp add: acc_step_def fsum_snoc) (simp add: fsum_def)
    with Some Cons [of "xs @ [x]"] show ?thesis by (simp add: valid_values_Cons)
  qed
qed

lemma cnt_fold:
  "foldl (\<lambda>a row. cnt_step (valid_value (row f)) a) (if n = 0 then None else Some n) rows
   = (if n + length (valid_values rows f) = 0 then None
      else Some (n + length (valid_values rows f)))"
proof (induction rows arbitrary: n)
  case Nil
  then show ?case by (simp add: valid_values_def map_filter_simps)
next
  case (Cons row rows)
  show ?case
  proof (cases "valid_value (row f)")
    case None
    with Cons [of n] show ?thesis by (simp add: valid_values_Cons cnt_step_def)
  next
    case (Some x)
    have "cnt_step (Some x) (if n = 0 then None else Some n)
        = (if Suc n = 0 then None else Some (Suc n))"
      by (simp add: cnt_step_def)
    with Some Cons [of "Suc n"] show ?thesis by (simp add: valid_values_Cons)
  qed
qed

lemma length_valid_values: "length (valid_values rows f) \<le> length rows"
  by (induction rows) (auto simp: valid_values_Cons valid_values_def map_filter_simps split: option.splits)

lemma divide_pass:
  assumes "distinct (map fst cs)"
    and "\<forall>(k, c)\<in>set cs. c \<noteq> 0 \<and> rat_of_nat c < max_double_bound \<and> map_of sd k \<noteq> None"
  shows "\<exists>sd'. foldl_err divide_by_count sd cs = Inr sd'
     \<and> (\<forall>k. map_of sd' k =
           (case map_of cs k of
              None \<Rightarrow> map_of sd k
            | Some c \<Rightarrow>
                (case map_of sd k of
                   None \<Rightarrow> None
                 | Some s \<Rightarrow>
                     (case fdiv s (round_double (of_nat c)) of
                        Inl _ \<Rightarrow> None
                      | Inr q \<Rightarrow> Some q))))"
  using assms
proof (induction cs arbitrary: sd)
  case Nil
  then show ?case by simp
next
  case (Cons kc cs)
  obtain key c where kc: "kc = (key, c)" by (cases kc)
  with Cons.prems(2) have c: "c \<noteq> 0" "rat_of_nat c < max_double_bound"
    and "map_of sd key \<noteq> None" by auto
  then obtain s where s: "map_of sd key = Some s" by auto
  from fdiv_by_count [OF c, of s] obtain q where
    f: "float_of_int (int c) = Inr (round_double (of_nat c))"
    and q: "fdiv s (round_double (of_nat c)) = Inr q" by blast
  have st: "divide_by_count sd kc = Inr (AList.update key q sd)"
    by (simp add: divide_by_count_def kc c s f q)
  have pre: "\<forall>(k, c)\<in>set cs. c \<noteq> 0 \<and> rat_of_nat c < max_double_bound
      \<and> map_of (AList.update key q sd) k \<noteq> None"
    using Cons.prems(2) by (auto simp: update_conv')
  from Cons.prems(1) have d: "distinct (map fst cs)" and nk: "key \<notin> fst ` set cs"
    by (simp_all add: kc)
  from Cons.IH [OF d pre] obtain sd' where
    r: "foldl_err divide_by_count (AList.update key q sd) cs = Inr sd'"
    and m: "\<forall>k. map_of sd' k =
           (case map_of cs k of
              None \<Rightarrow> map_of (AList.update key q sd) k
            | Some c \<Rightarrow>
                (case map_of (AList.update key q sd) k of
                   None \<Rightarrow> None
                 | Some s \<Rightarrow>
                     (case fdiv s (round_double (of_nat c)) of
                        Inl _ \<Rightarrow> None
                      | Inr q \<Rightarrow> Some q)))"
    by blast
  from nk have none: "map_of cs key = None" by (simp add: map_of_eq_None_iff)
  have "map_of sd' k =
           (case map_of (kc # cs) k of
              None \<Rightarrow> map_of sd k
            | Some c \<Rightarrow>
                (case map_of sd k of
                   None \<Rightarrow> None
                 | Some s \<Rightarrow>
                     (case fdiv s (round_double (of_nat c)) of
                        Inl _ \<Rightarrow> None
                      | Inr q \<Rightarrow> Some q)))" for k
  proof (cases "k = key")
    case True
    with m none s q show ?thesis by (simp add: kc update_conv')
  next
    case False
    then have u: "map_of (AList.update key q sd) k = map_of sd k" by (simp add: update_conv')
    from m have e: "map_of sd' k =
           (case map_of cs k of
              None \<Rightarrow> map_of (AList.update key q sd) k
            | Some c \<Rightarrow>
                (case map_of (AList.update key q sd) k of
                   None \<Rightarrow> None
                 | Some s \<Rightarrow>
                     (case fdiv s (round_double (of_nat c)) of
                        Inl _ \<Rightarrow> None
                      | Inr q \<Rightarrow> Some q)))" by (rule spec)
    show ?thesis unfolding e u using False by (simp add: kc)
  qed
  with st r show ?case by simp
qed

lemma acc_fold_None:
  "foldl (\<lambda>a row. acc_step (valid_value (row f)) a) None rows
   = (if valid_values rows f = [] then None else Some (fsum (valid_values rows f)))"
  using acc_fold [of f "[]" rows] by simp

lemma cnt_fold_None:
  "foldl (\<lambda>a row. cnt_step (valid_value (row f)) a) None rows
   = (if valid_values rows f = [] then None else Some (length (valid_values rows f)))"
  using cnt_fold [of f 0 rows] by simp

lemma aggregate_state:
  assumes "list_all derived_row_ok rows"
  shows "\<exists>sd' cd'. foldl_err aggregate_row ([], []) rows = Inr (sd', cd')
     \<and> (\<forall>f\<in>set total_metrics. map_of sd' (''total_'' @ f)
           = (if valid_values rows f = [] then None else Some (fsum (valid_values rows f))))
     \<and> (\<forall>f\<in>set average_metrics. map_of sd' (''avg_'' @ f)
           = (if valid_values rows f = [] then None else Some (fsum (valid_values rows f))))
     \<and> (\<forall>f\<in>set average_metrics. map_of cd' (''avg_'' @ f)
           = (if valid_values rows f = [] then None else Some (length (valid_values rows f))))
     \<and> (\<forall>k. k \<notin> total_keys \<union> average_keys \<longrightarrow> map_of sd' k = None)
     \<and> (\<forall>k. k \<notin> average_keys \<longrightarrow> map_of cd' k = None)
     \<and> distinct (map fst cd')"
proof -
  from rows_fold [OF assms, of "[]" "[]"] obtain sd' cd' where
    r: "foldl_err aggregate_row ([], []) rows = Inr (sd', cd')"
    and m: "\<forall>k. map_of sd' k =
           (if k \<in> total_keys
            then foldl (\<lambda>a row. acc_step (valid_value (row (drop 6 k))) a) None rows
            else if k \<in> average_keys
            then foldl (\<lambda>a row. acc_step (valid_value (row (drop 4 k))) a) None rows
            else None)"
    and c: "\<forall>k. map_of cd' k =
           (if k \<in> average_keys
            then foldl (\<lambda>a row. cnt_step (valid_value (row (drop 4 k))) a) None rows
            else None)"
    and d: "distinct (map fst cd')"
    by auto
  have 1: "map_of sd' (''total_'' @ f)
           = (if valid_values rows f = [] then None else Some (fsum (valid_values rows f)))"
    if "f \<in> set total_metrics" for f
  proof -
    from that have "''total_'' @ f \<in> total_keys" by (simp add: total_keys_def)
    with m have "map_of sd' (''total_'' @ f)
        = foldl (\<lambda>a row. acc_step (valid_value (row (drop 6 (''total_'' @ f)))) a) None rows"
      by simp
    then show ?thesis by (simp add: acc_fold_None)
  qed
  have 2: "map_of sd' (''avg_'' @ f)
           = (if valid_values rows f = [] then None else Some (fsum (valid_values rows f)))"
    and 3: "map_of cd' (''avg_'' @ f)
           = (if valid_values rows f = [] then None else Some (length (valid_values rows f)))"
    if "f \<in> set average_metrics" for f
  proof -
    from that have k: "''avg_'' @ f \<in> average_keys" by (simp add: average_keys_def)
    then have nk: "''avg_'' @ f \<notin> total_keys" by (rule keys_disjoint)
    from m k nk have "map_of sd' (''avg_'' @ f)
        = foldl (\<lambda>a row. acc_step (valid_value (row (drop 4 (''avg_'' @ f)))) a) None rows"
      by simp
    then show "map_of sd' (''avg_'' @ f)
           = (if valid_values rows f = [] then None else Some (fsum (valid_values rows f)))"
      by (simp add: acc_fold_None)
    from c k have "map_of cd' (''avg_'' @ f)
        = foldl (\<lambda>a row. cnt_step (valid_value (row (drop 4 (''avg_'' @ f)))) a) None rows"
      by simp
    then show "map_of cd' (''avg_'' @ f)
           = (if valid_values rows f = [] then None else Some (length (valid_values rows f)))"
      by (simp add: cnt_fold_None)
  qed
  from m have 4: "\<forall>k. k \<notin> total_keys \<union> average_keys \<longrightarrow> map_of sd' k = None" by simp
  from c have 5: "\<forall>k. k \<notin> average_keys \<longrightarrow> map_of cd' k = None" by simp
  from r 1 2 3 4 5 d show ?thesis by blast
qed

lemma aggregate_example_ok:
  "list_all derived_row_ok aggregate_example"
  "rat_of_nat (length aggregate_example) < max_double_bound"
  by (simp_all add: aggregate_example_def derived_row_ok_def numeric_fields_def
      float_or_absent_def max_double_bound_def)

lemma aggregate_example_values:
  "valid_values aggregate_example ''spend'' = [150, 80]"
  "valid_values aggregate_example ''roas'' = [1, 3]"
  "valid_values aggregate_example ''clicks'' = []"
  "valid_values aggregate_example ''ctr'' = []"
  by (simp_all add: aggregate_example_def valid_values_def map_filter_simps)

lemma round_double_one: "round_double 1 = Fin 1"
  using round_double_int [of 1] by simp

lemma aggregate_example_sums:
  "fsum [150, 80] = Fin 230" "fmean [1, 3] = Inr (Fin 2)"
  by (simp_all add: fsum_def fmean_def fadd_def fdiv_def round_double_numeral round_double_one)

section \<open>Column Resolver: hints\<close>

lemma normalize_twice: "normalize_label (normalize_label s) = normalize_label s"
  using normalize_label_normal_form by (rule normal_form_fixed)

lemma normalize_Nil: "normalize_label [] = []"
  by (simp add: normalize_label_def str_strip_def str_lower_def)

lemma no_space_single_spaced: "\<forall>x\<in>set w. x \<noteq> CHR '' '' \<Longrightarrow> single_spaced w"
  by (induction w rule: single_spaced.induct) simp_all

lemma no_space_normal:
  assumes "list_all is_lower_alnum w"
  shows "normal_form w"
proof -
  from assms have ns: "\<forall>x\<in>set w. x \<noteq> CHR '' ''"
    unfolding list_all_iff using alnum_not_sp by blast
  have 1: "list_all word_char w"
    using assms unfolding list_all_iff word_char_def by blast
  have 2: "single_spaced w" using ns by (rule no_space_single_spaced)
  have 3: "\<not> space_at_ends w"
  proof (cases w)
    case Nil
    then show ?thesis by (simp add: space_at_ends_def)
  next
    case (Cons c cs)
    then have "last w \<in> set w" "c \<in> set w" by simp_all
    with ns have "last w \<noteq> CHR '' ''" "c \<noteq> CHR '' ''" by blast+
    with Cons show ?thesis by (simp add: space_at_ends_def)
  qed
  from 1 2 3 show ?thesis by (simp add: normal_form_def)
qed

lemma normal_first_word:
  assumes "normal_form nh" and "nh \<noteq> []"
  shows "\<exists>w ws. py_split nh = w # ws \<and> w \<noteq> [] \<and> normalize_label w = w"
proof -
  from assms obtain c t where ct: "nh = c # t" by (cases nh) auto
  from assms(1) ct have wc: "list_all word_char (c # t)" and c: "c \<noteq> CHR '' ''"
    by (auto simp: normal_form_def space_at_ends_def)
  then have cs: "\<not> py_isspace c" by (simp add: word_char_isspace)
  define w where "w = c # takeWhile (\<lambda>x. \<not> py_isspace x) t"
  have d: "dropWhile py_isspace nh = c # t" by (simp add: ct cs)
  have "py_split nh =
      (case dropWhile py_isspace nh of
         [] \<Rightarrow> []
       | c # t \<Rightarrow> (c # takeWhile (\<lambda>x. \<not> py_isspace x) t)
                  # py_split (dropWhile (\<lambda>x. \<not> py_isspace x) t))"
    by (rule py_split.simps)
  then have sp: "py_split nh = w # py_split (dropWhile (\<lambda>x. \<not> py_isspace x) t)"
    unfolding d w_def by simp
  have "is_lower_alnum x" if "x \<in> set w" for x
  proof -
    from that have "x = c \<or> x \<in> set (takeWhile (\<lambda>x. \<not> py_isspace x) t)"
      by (simp add: w_def)
    then have "x \<in> set (c # t) \<and> \<not> py_isspace x"
    proof
      assume "x = c"
      with cs show ?thesis by simp
    next
      assume "x \<in> set (takeWhile (\<lambda>x. \<not> py_isspace x) t)"
      then have "x \<in> set t \<and> \<not> py_isspace x" by (rule set_takeWhileD)
      then show ?thesis by simp
    qed
    then have xin: "x \<in> set (c # t)" and ns: "\<not> py_isspace x" by (rule conjunct1, rule conjunct2)
    from wc have "\<forall>x\<in>set (c # t). word_char x" by (simp only: list_all_iff)
    from this xin have "word_char x" by (rule bspec)
    then have "x = CHR '' '' \<or> is_lower_alnum x" by (simp only: word_char_def)
    then show ?thesis
    proof
      assume "x = CHR '' ''"
      with ns space_isspace show ?thesis by simp
    qed
  qed
  then have "\<forall>x\<in>set w. is_lower_alnum x" by blast
  then have "list_all is_lower_alnum w" by (simp only: list_all_iff)
  then have "normal_form w" by (rule no_space_normal)
  then have n: "normalize_label w = w" by (rule normal_form_fixed)
  have "w \<noteq> []" by (simp add: w_def)
  with sp n show ?thesis
    by (intro exI [of _ w] exI [of _ "py_split (dropWhile (\<lambda>x. \<not> py_isspace x) t)"] conjI)
qed

lemma remove_spaces_normal:
  assumes "normal_form nh" and "nh \<noteq> []"
  shows "remove_spaces nh \<noteq> []"
proof -
  from assms obtain c t where ct: "nh = c # t" by (cases nh) auto
  with assms(1) have "c \<noteq> CHR '' ''" by (auto simp: normal_form_def space_at_ends_def)
  with ct show ?thesis by (simp add: remove_spaces_def)
qed

lemma list_case_if: "(case xs of [] \<Rightarrow> a | _ # _ \<Rightarrow> b) = (if xs = [] then a else b)"
  by (cases xs) simp_all

lemma find_best_match_hint:
  assumes "normalize_label hint \<noteq> []"
  shows "find_best_match (normalize_label hint) (normalized_columns columns) None
     = Inr (hint_match columns hint)"
proof -
  define nh where "nh = normalize_label hint"
  have nf: "normal_form nh" unfolding nh_def by (rule normalize_label_normal_form)
  from assms have ne: "nh \<noteq> []" by (simp add: nh_def)
  from normal_first_word [OF nf ne] obtain w ws where
    w: "py_split nh = w # ws" and ww: "normalize_label w = w" by (elim exE conjE)
  have nn: "normalize_label nh = nh" unfolding nh_def by (rule normalize_twice)
  define P1 where "P1 = (\<lambda>c. normalize_label c = nh
                     \<or> remove_spaces (normalize_label c) = remove_spaces nh)"
  define P2 where "P2 = (\<lambda>c. prefix w (normalize_label c))"
  have f1: "List.find (\<lambda>(column_name :: string, normalized).
                        normalized = nh \<or> remove_spaces normalized = remove_spaces nh)
              (normalized_columns columns)
      = map_option (\<lambda>c. (c, normalize_label c)) (List.find P1 columns)"
    by (simp add: find_normalized_columns P1_def)
  have f2: "map_option fst (List.find (\<lambda>(column_name :: string, normalized). prefix w normalized)
              (normalized_columns columns))
      = List.find P2 columns"
    by (simp add: find_normalized_columns P2_def option.map_comp comp_def option.map_ident)
  have h: "hint_match columns hint
      = (case List.find P1 columns of Some c \<Rightarrow> Some c | None \<Rightarrow> List.find P2 columns)"
    unfolding hint_match_def Let_def nh_def [symmetric] P1_def P2_def w list.sel by (rule refl)
  show ?thesis
  proof (cases "List.find P1 columns")
    case (Some c)
    then show ?thesis
      unfolding nh_def [symmetric] h by (simp add: find_best_match_def nn f1)
  next
    case None
    show ?thesis
    proof (cases "columns = []")
      case True
      then have "normalized_columns columns = []" by (simp add: normalized_columns_empty)
      with None True show ?thesis
        unfolding nh_def [symmetric] h by (simp add: find_best_match_def nn)
    next
      case False
      then have ne_cols: "normalized_columns columns \<noteq> []" by (simp add: normalized_columns_empty)
      have "find_best_match nh (normalized_columns columns) None
          = Inr (map_option fst (List.find (\<lambda>(column_name :: string, normalized). prefix w normalized)
              (normalized_columns columns)))"
        using ne_cols by (simp add: find_best_match_def nn f1 None list_case_if w ww)
      with None show ?thesis
        unfolding nh_def [symmetric] h f2 by simp
    qed
  qed
qed

lemma find_SomeD2: "List.find P xs = Some x \<Longrightarrow> P x \<and> x \<in> set xs"
  by (induction xs) (auto split: if_splits)

lemma remove_spaces_Nil: "remove_spaces [] = []"
  by (simp add: remove_spaces_def)

lemma hint_match_Some:
  assumes "hint_match columns hint = Some h" and "normalize_label hint \<noteq> []"
  shows "h \<in> set columns \<and> h \<noteq> []"
proof -
  define nh where "nh = normalize_label hint"
  have nf: "normal_form nh" unfolding nh_def by (rule normalize_label_normal_form)
  from assms(2) have ne: "nh \<noteq> []" by (simp add: nh_def)
  from normal_first_word [OF nf ne] obtain w ws where
    w: "py_split nh = w # ws" and wn: "w \<noteq> []" by (elim exE conjE)
  define P1 where "P1 = (\<lambda>c. normalize_label c = nh
                     \<or> remove_spaces (normalize_label c) = remove_spaces nh)"
  define P2 where "P2 = (\<lambda>c. prefix w (normalize_label c))"
  have h: "hint_match columns hint
      = (case List.find P1 columns of Some c \<Rightarrow> Some c | None \<Rightarrow> List.find P2 columns)"
    unfolding hint_match_def Let_def nh_def [symmetric] P1_def P2_def w list.sel by (rule refl)
  from assms(1) h have "List.find P1 columns = Some h \<or> List.find P2 columns = Some h"
    by (cases "List.find P1 columns") simp_all
  then have "(P1 h \<or> P2 h) \<and> h \<in> set columns"
    by (elim disjE) (simp_all add: find_SomeD2)
  then have p: "P1 h \<or> P2 h" and m: "h \<in> set columns" by (rule conjunct1, rule conjunct2)
  have "normalize_label h \<noteq> []"
  proof
    assume e: "normalize_label h = []"
    from p show False
    proof
      assume "P1 h"
      then have "nh = [] \<or> remove_spaces nh = []"
        unfolding P1_def e remove_spaces_Nil by (elim disjE) simp_all
      with ne remove_spaces_normal [OF nf ne] show False by simp
    next
      assume "P2 h"
      with wn show False unfolding P2_def e by simp
    qed
  qed
  then have "h \<noteq> []" using normalize_Nil by (cases h) simp_all
  with m show ?thesis by (intro conjI)
qed

lemma apply_hint_relaxed:
  assumes "hinted \<notin> set columns" and "normalize_label hinted \<noteq> []"
  shows "apply_hint (normalized_columns columns) c2s (canonical, hinted)
     = Inr (case hint_match columns hinted of None \<Rightarrow> c2s | Some h \<Rightarrow> c2s(canonical \<mapsto> h))"
proof -
  have k: "hinted \<notin> set (map fst (normalized_columns columns))"
    unfolding keys_normalized_columns by (rule assms(1))
  show ?thesis
  proof (cases "hint_match columns hinted")
    case None
    then show ?thesis
      using k by (simp add: apply_hint_def find_best_match_hint [OF assms(2)] str_truthy_def)
  next
    case (Some h)
    with assms(2) have "h \<noteq> []" by (simp add: hint_match_Some)
    with Some show ?thesis
      using k by (simp add: apply_hint_def find_best_match_hint [OF assms(2)] str_truthy_def)
  qed
qed

lemma apply_hint_total:
  assumes "v \<in> set columns \<or> normalize_label v \<noteq> []"
  shows "\<exists>s'. apply_hint (normalized_columns columns) s (k, v) = Inr s'"
proof (cases "v \<in> set columns")
  case True
  then have "v \<in> set (map fst (normalized_columns columns))"
    unfolding keys_normalized_columns by assumption
  then show ?thesis by (simp add: apply_hint_def)
next
  case False
  with assms have "normalize_label v \<noteq> []" by simp
  from apply_hint_relaxed [OF False this, of s k] show ?thesis by simp
qed

lemma apply_hint_other:
  assumes "apply_hint ncols s (k, v) = Inr s'" and "k \<noteq> canonical"
  shows "s' canonical = s canonical"
  using assms by (auto simp: apply_hint_def split: if_splits sum.splits)

lemma foldl_err_total:
  assumes "\<And>s x. x \<in> set xs \<Longrightarrow> \<exists>s'. f s x = Inr s'"
  shows "\<exists>s'. foldl_err f s xs = Inr s'"
  using assms
proof (induction xs arbitrary: s)
  case Nil
  show ?case by simp
next
  case (Cons x xs)
  from Cons.prems [of x s] obtain s1 where 1: "f s x = Inr s1" by auto
  from Cons.IH [of s1] Cons.prems obtain s' where "foldl_err f s1 xs = Inr s'" by auto
  with 1 show ?case by simp
qed

lemma foldl_err_skip:
  assumes "\<And>s. f s x = Inr s"
  shows "foldl_err f s (filter P xs) = foldl_err f s (filter P (removeAll x xs))"
proof (induction xs arbitrary: s)
  case Nil
  show ?case by simp
next
  case (Cons y ys)
  show ?case
  proof (cases "y = x")
    case True
    with Cons [of s] assms [of s] show ?thesis by simp
  next
    case False
    with Cons show ?thesis by (simp split: sum.splits)
  qed
qed

lemma hints_fold_other:
  assumes "foldl_err (apply_hint ncols) s hs = Inr s'" and "canonical \<notin> fst ` set hs"
  shows "s' canonical = s canonical"
proof (rule foldl_err_inv [where P = "\<lambda>t. t canonical = s canonical", OF assms(1)])
  show "s canonical = s canonical" by (rule refl)
next
  fix t x t'
  assume x: "x \<in> set hs" and t: "t canonical = s canonical" and a: "apply_hint ncols t x = Inr t'"
  obtain k v where kv: "x = (k, v)" by (cases x)
  with x assms(2) have "k \<noteq> canonical" by force
  with a kv have "t' canonical = t canonical" by (simp add: apply_hint_other)
  with t show "t' canonical = s canonical" by simp
qed

lemma hints_fold:
  assumes "distinct (map fst hs)" and "(canonical, hinted) \<in> set hs"
    and "foldl_err (apply_hint ncols) s hs = Inr s'"
    and "\<And>s. apply_hint ncols s (canonical, hinted) = Inr (s(canonical \<mapsto> h))"
  shows "s' canonical = Some h"
  using assms(1,2,3)
proof (induction hs arbitrary: s)
  case Nil
  then show ?case by simp
next
  case (Cons x xs)
  from Cons.prems(3) obtain s1 where 1: "apply_hint ncols s x = Inr s1"
    and 2: "foldl_err (apply_hint ncols) s1 xs = Inr s'"
    by (auto split: sum.splits)
  show ?case
  proof (cases "x = (canonical, hinted)")
    case True
    with 1 assms(4) [of s] have s1: "s1 = s(canonical \<mapsto> h)" by simp
    from True Cons.prems(1) have "canonical \<notin> fst ` set xs" by simp
    from hints_fold_other [OF 2 this] s1 show ?thesis by simp
  next
    case False
    with Cons.prems(2) have m: "(canonical, hinted) \<in> set xs" by simp
    from Cons.prems(1) have d: "distinct (map fst xs)" by simp
    from d m 2 show ?thesis by (rule Cons.IH)
  qed
qed

lemma auto_match_keeps:
  assumes "auto_match ncols s entry = Inr s'" and "s canonical = Some h" and "h \<noteq> []"
  shows "s' canonical = Some h"
proof (cases entry)
  case (Pair k syn)
  show ?thesis
  proof (cases "k = canonical")
    case True
    with assms Pair show ?thesis by (simp add: auto_match_def str_truthy_def)
  next
    case False
    with assms(1,2) Pair show ?thesis
      by (auto simp: auto_match_def Let_def split: if_splits option.splits sum.splits prod.splits)
  qed
qed

lemma find_best_match_total:
  assumes "py_split key \<noteq> []"
  shows "\<exists>t. find_best_match key ncols fb = Inr t"
proof -
  from assms obtain w ws where "py_split key = w # ws" by (cases "py_split key") auto
  then show ?thesis
    by (simp add: find_best_match_def Let_def list_case_if split: option.splits prod.splits)
qed

lemma auto_match_total:
  assumes "py_split (fst entry) \<noteq> []"
  shows "\<exists>s'. auto_match ncols s entry = Inr s'"
proof -
  obtain k syn where e: "entry = (k, syn)" by (cases entry)
  with assms have "py_split k \<noteq> []" by simp
  from find_best_match_total [OF this, of ncols "Some (syn @ [k])"]
  obtain t where "find_best_match k ncols (Some (syn @ [k])) = Inr t" by (elim exE)
  then show ?thesis by (simp add: e auto_match_def Let_def)
qed

lemma py_split_nonspace: "\<not> py_isspace c \<Longrightarrow> py_split (c # t) \<noteq> []"
  by (subst py_split.simps) simp

lemma canonical_words:
  assumes "entry \<in> set CANONICAL_COLUMNS"
  shows "py_split (fst entry) \<noteq> []"
  using assms by (auto simp: CANONICAL_COLUMNS_def py_split_nonspace py_isspace_def)

lemma identify_columns_total:
  assumes "\<forall>(k, v)\<in>set hints. k \<in> set (map fst CANONICAL_COLUMNS)
            \<longrightarrow> v \<in> set columns \<or> normalize_label v \<noteq> []"
  shows "\<exists>m. identify_columns columns hints = Inr m"
proof -
  define ncols where "ncols = normalized_columns columns"
  define hm where "hm = filter (\<lambda>(key, _). key \<in> set (map fst CANONICAL_COLUMNS)) hints"
  have "\<exists>s'. apply_hint ncols s x = Inr s'" if "x \<in> set hm" for s x
  proof -
    obtain k v where kv: "x = (k, v)" by (cases x)
    with that have "(k, v) \<in> set hints" and "k \<in> set (map fst CANONICAL_COLUMNS)"
      by (simp_all add: hm_def)
    with assms have "v \<in> set columns \<or> normalize_label v \<noteq> []" by blast
    then show ?thesis unfolding kv ncols_def by (rule apply_hint_total)
  qed
  then have "\<exists>c2s. foldl_err (apply_hint ncols) Map.empty hm = Inr c2s"
    by (rule foldl_err_total)
  then obtain c2s where 1: "foldl_err (apply_hint ncols) Map.empty hm = Inr c2s" by (elim exE)
  have "\<exists>s'. auto_match ncols s x = Inr s'" if "x \<in> set CANONICAL_COLUMNS" for s x
    using that by (intro auto_match_total canonical_words)
  then have "\<exists>m. foldl_err (auto_match ncols) c2s CANONICAL_COLUMNS = Inr m"
    by (rule foldl_err_total)
  then obtain m where 2: "foldl_err (auto_match ncols) c2s CANONICAL_COLUMNS = Inr m" by (elim exE)
  have "identify_columns columns hints = Inr m"
    unfolding identify_columns_def Let_def ncols_def [symmetric] hm_def [symmetric] 1 using 2 by simp
  then show ?thesis by simp
qed

lemma identify_columns_hint:
  assumes m: "(canonical, hinted) \<in> set hints" and d: "distinct (map fst hints)"
    and c: "canonical \<in> set (map fst CANONICAL_COLUMNS)"
    and nv: "hinted \<notin> set columns" and ne: "normalize_label hinted \<noteq> []"
    and hm: "hint_match columns hinted = Some h"
    and r: "identify_columns columns hints = Inr res"
  shows "res canonical = Some h"
proof -
  define ncols where "ncols = normalized_columns columns"
  define hs where "hs = filter (\<lambda>(key, _). key \<in> set (map fst CANONICAL_COLUMNS)) hints"
  from r have "ebind (foldl_err (apply_hint ncols) Map.empty hs)
                 (\<lambda>c2s. foldl_err (auto_match ncols) c2s CANONICAL_COLUMNS) = Inr res"
    unfolding identify_columns_def Let_def ncols_def hs_def by assumption
  then obtain c2s where 1: "foldl_err (apply_hint ncols) Map.empty hs = Inr c2s"
    and 2: "foldl_err (auto_match ncols) c2s CANONICAL_COLUMNS = Inr res"
    by (cases "foldl_err (apply_hint ncols) Map.empty hs") simp_all
  from d have dh: "distinct (map fst hs)" unfolding hs_def by (rule distinct_map_filter)
  from m c have mh: "(canonical, hinted) \<in> set hs" by (simp add: hs_def)
  have a: "apply_hint ncols s (canonical, hinted) = Inr (s(canonical \<mapsto> h))" for s
    using apply_hint_relaxed [OF nv ne, of s canonical] by (simp add: hm ncols_def)
  from dh mh 1 a have c2s: "c2s canonical = Some h" by (rule hints_fold)
  from hm ne have hne: "h \<noteq> []" by (simp add: hint_match_Some)
  show ?thesis
  proof (rule foldl_err_inv [where P = "\<lambda>t. t canonical = Some h", OF 2 c2s])
    fix t x t'
    assume "t canonical = Some h" and "auto_match ncols t x = Inr t'"
    from this(2,1) hne show "t' canonical = Some h" by (rule auto_match_keeps)
  qed
qed

lemma identify_columns_no_match:
  assumes nv: "hinted \<notin> set columns" and ne: "normalize_label hinted \<noteq> []"
    and hm: "hint_match columns hinted = None"
  shows "identify_columns columns hints
     = identify_columns columns (removeAll (canonical, hinted) hints)"
proof -
  have "apply_hint (normalized_columns columns) s (canonical, hinted) = Inr s" for s
    using apply_hint_relaxed [OF nv ne, of s canonical] by (simp add: hm)
  then have "foldl_err (apply_hint (normalized_columns columns)) Map.empty
               (filter (\<lambda>(key, _). key \<in> set (map fst CANONICAL_COLUMNS)) hints)
           = foldl_err (apply_hint (normalized_columns columns)) Map.empty
               (filter (\<lambda>(key, _). key \<in> set (map fst CANONICAL_COLUMNS))
                  (removeAll (canonical, hinted) hints))"
    by (rule foldl_err_skip)
  then show ?thesis unfolding identify_columns_def Let_def by (rule arg_cong)
qed

lemma hint_match_equal:
  assumes "c \<in> set columns" and "normalize_label c = normalize_label hinted"
  shows "hint_match columns hinted \<noteq> None"
proof -
  define P1 where "P1 = (\<lambda>c. normalize_label c = normalize_label hinted
                     \<or> remove_spaces (normalize_label c) = remove_spaces (normalize_label hinted))"
  from assms have "\<exists>x\<in>set columns. P1 x" unfolding P1_def by blast
  then have "List.find P1 columns \<noteq> None" by (simp add: find_None_iff Bex_def)
  then obtain h where h: "List.find P1 columns = Some h" by (cases "List.find P1 columns") simp_all
  have "hint_match columns hinted = Some h"
    unfolding hint_match_def Let_def P1_def [symmetric] h by simp
  then show ?thesis by simp
qed
section \<open>The claims\<close>

text \<open>
  C10. For every input string the header normalisation returns a result (it is a total
  function), normalising its result again changes nothing, and the result consists of
  lower-case letters, digits and spaces only, with no two spaces in a row and no
  whitespace at either end (so \<^verbatim>\<open>strip()\<close> leaves it unchanged).
\<close>

theorem normalize_label_idempotent:
  "normalize_label (normalize_label s) = normalize_label s
   \<and> list_all word_char (normalize_label s)
   \<and> single_spaced (normalize_label s)
   \<and> \<not> space_at_ends (normalize_label s)
   \<and> str_strip (normalize_label s) = normalize_label s"
proof -
  have n: "normal_form (normalize_label s)" by (rule normalize_label_normal_form)
  then have "normalize_label (normalize_label s) = normalize_label s"
    by (rule normal_form_fixed)
  moreover from n have "str_strip (normalize_label s) = normalize_label s"
    by (simp add: normal_form_def strip_id)
  ultimately show ?thesis using n by (simp add: normal_form_def)
qed

theorem normalize_label_idempotent_witness:
  "normalize_label ''  Ad--Set  (x) '' = ''ad set x''
   \<and> normalize_label ''ad set x'' = ''ad set x''
   \<and> single_spaced ''ad set x'' \<and> \<not> space_at_ends ''ad set x''"
proof -
  have e: "normalize_label ''  Ad--Set  (x) '' = ''ad set x''" by code_simp
  show ?thesis using normalize_label_idempotent [of "''  Ad--Set  (x) ''"] unfolding e by simp
qed


text \<open>
  C1. On a summary whose rows are derived rows, the Rule Engine returns, and its findings
  contain one with code \<^verbatim>\<open>spend_no_purchases\<close> if and only if some row has a spend above
  50 with purchases missing or equal to 0.  Every finding with that code has severity
  critical, and its evidence lists, for each such row and in row order, the spend, the
  purchases (0.0 when missing), the campaign name and the ad name of the row.
\<close>

theorem spend_no_purchases_iff:
  assumes "list_all derived_row_ok (per_row s)"
  shows "\<exists>found. insight_agent [] s = Inr found
     \<and> ((\<exists>i\<in>set found. code i = ''spend_no_purchases'')
          \<longleftrightarrow> (\<exists>row\<in>set (per_row s). spends_without_purchases row))
     \<and> (\<forall>i\<in>set found. code i = ''spend_no_purchases'' \<longrightarrow>
           severity i = Critical
           \<and> metrics i =
               [(''offenders'',
                 Offenders (map (\<lambda>row.
                     [(''spend'', row_get row ''spend''),
                      (''purchases'', case row ''purchases'' of None \<Rightarrow> PFloat (Fin 0) | Some v \<Rightarrow> v),
                      (''campaign_name'', row_get row ''campaign_name''),
                      (''ad_name'', row_get row ''ad_name'')])
                   (filter spends_without_purchases (per_row s))))])"
proof -
  from insight_agent_total [OF assms] obtain found where f: "insight_agent [] s = Inr found"
    by blast
  have ap: "spend_applies s = Inr (list_ex spends_without_purchases (per_row s))"
    by (simp add: spend_applies_def any_row_offends_ok [OF assms])
  have bu: "spend_build s =
      Inr \<lparr>code = ''spend_no_purchases'', label = ''Spend with no purchases'', severity = Critical,
           metrics = [(''offenders'', Offenders (map offender_entry
                        (filter spends_without_purchases (per_row s))))]\<rparr>"
    by (simp add: spend_build_def offenders_ok [OF assms])
  have en: "map offender_entry (filter spends_without_purchases (per_row s))
      = map (\<lambda>row. [(''spend'', row_get row ''spend''),
                      (''purchases'', case row ''purchases'' of None \<Rightarrow> PFloat (Fin 0) | Some v \<Rightarrow> v),
                      (''campaign_name'', row_get row ''campaign_name''),
                      (''ad_name'', row_get row ''ad_name'')])
            (filter spends_without_purchases (per_row s))"
    by (rule map_cong) (auto simp: offender_entry_eq)
  have 1: "(\<exists>i\<in>set found. code i = ''spend_no_purchases'')
          \<longleftrightarrow> (\<exists>row\<in>set (per_row s). spends_without_purchases row)"
  proof
    assume "\<exists>i\<in>set found. code i = ''spend_no_purchases''"
    then obtain i r where "r \<in> set default_rules" "fires s r" "build_insight r s = Inr i"
      "code i = ''spend_no_purchases''"
      using found_elem [OF f] by blast
    then have "r = SpendZeroPurchasesRule"
      using build_code [of r s i] by (intro rule_of_code(1)) simp_all
    with \<open>fires s r\<close> ap show "\<exists>row\<in>set (per_row s). spends_without_purchases row"
      by (simp add: fires_def spend_rule_simps list_ex_iff)
  next
    assume "\<exists>row\<in>set (per_row s). spends_without_purchases row"
    with ap have "fires s SpendZeroPurchasesRule"
      by (simp add: fires_def spend_rule_simps list_ex_iff)
    then have "\<exists>r\<in>set default_rules. fires s r \<and> build_insight r s = spend_build s"
      using rules_in_default(1) by (intro bexI [of _ SpendZeroPurchasesRule]) (simp_all add: spend_rule_simps)
    then have "\<lparr>code = ''spend_no_purchases'', label = ''Spend with no purchases'', severity = Critical,
           metrics = [(''offenders'', Offenders (map offender_entry
                        (filter spends_without_purchases (per_row s))))]\<rparr> \<in> set found"
      unfolding found_elem [OF f] bu .
    then show "\<exists>i\<in>set found. code i = ''spend_no_purchases''"
      by (rule bexI [rotated]) simp
  qed
  have 2: "\<forall>i\<in>set found. code i = ''spend_no_purchases'' \<longrightarrow>
           severity i = Critical
           \<and> metrics i = [(''offenders'', Offenders (map offender_entry
                        (filter spends_without_purchases (per_row s))))]"
  proof (intro ballI impI)
    fix i assume "i \<in> set found" "code i = ''spend_no_purchases''"
    then obtain r where r: "r \<in> set default_rules" "fires s r" "build_insight r s = Inr i"
      using found_elem [OF f] by blast
    with \<open>code i = ''spend_no_purchases''\<close> have "r = SpendZeroPurchasesRule"
      using build_code [of r s i] by (intro rule_of_code(1)) simp_all
    with r bu show "severity i = Critical
           \<and> metrics i = [(''offenders'', Offenders (map offender_entry
                        (filter spends_without_purchases (per_row s))))]"
      by (auto simp: spend_rule_simps)
  qed
  from f 1 2 show ?thesis unfolding en by (intro exI [of _ found] conjI)
qed

theorem spend_no_purchases_iff_witness:
  "list_all derived_row_ok (per_row scenario_summary)
   \<and> (\<exists>found. insight_agent [] scenario_summary = Inr found
        \<and> (\<exists>i\<in>set found. code i = ''spend_no_purchases'' \<and> severity i = Critical
              \<and> metrics i =
                  [(''offenders'',
                    Offenders [[(''spend'', PFloat (Fin 80)), (''purchases'', PFloat (Fin 0)),
                                (''campaign_name'', PStr ''Spring Drops''),
                                (''ad_name'', PStr ''Creative B'')]])]))"
proof -
  have p: "per_row scenario_summary = scenario_rows" by (simp add: scenario_summary_def)
  have x: "\<exists>row\<in>set (per_row scenario_summary). spends_without_purchases row"
    by (simp add: scenario_summary_def scenario_rows_def spends_without_purchases_def)
  from spend_no_purchases_iff [OF scenario_rows_ok] show ?thesis
  proof (elim exE conjE)
    fix found
    assume f: "insight_agent [] scenario_summary = Inr found"
      and e: "(\<exists>i\<in>set found. code i = ''spend_no_purchases'')
          \<longleftrightarrow> (\<exists>row\<in>set (per_row scenario_summary). spends_without_purchases row)"
      and m: "\<forall>i\<in>set found. code i = ''spend_no_purchases'' \<longrightarrow>
           severity i = Critical
           \<and> metrics i =
               [(''offenders'',
                 Offenders (map (\<lambda>row.
                     [(''spend'', row_get row ''spend''),
                      (''purchases'', case row ''purchases'' of None \<Rightarrow> PFloat (Fin 0) | Some v \<Rightarrow> v),
                      (''campaign_name'', row_get row ''campaign_name''),
                      (''ad_name'', row_get row ''ad_name'')])
                   (filter spends_without_purchases (per_row scenario_summary))))]"
    from e x have "\<exists>i\<in>set found. code i = ''spend_no_purchases''" by (rule iffD2)
    then show ?thesis
    proof
      fix i assume i: "i \<in> set found" "code i = ''spend_no_purchases''"
      from m i have "severity i = Critical
           \<and> metrics i =
               [(''offenders'',
                 Offenders (map (\<lambda>row.
                     [(''spend'', row_get row ''spend''),
                      (''purchases'', case row ''purchases'' of None \<Rightarrow> PFloat (Fin 0) | Some v \<Rightarrow> v),
                      (''campaign_name'', row_get row ''campaign_name''),
                      (''ad_name'', row_get row ''ad_name'')])
                   (filter spends_without_purchases (per_row scenario_summary))))]"
        by (simp only: simp_thms)
      then have "severity i = Critical
        \<and> metrics i =
                  [(''offenders'',
                    Offenders [[(''spend'', PFloat (Fin 80)), (''purchases'', PFloat (Fin 0)),
                                (''campaign_name'', PStr ''Spring Drops''),
                                (''ad_name'', PStr ''Creative B'')]])]"
        unfolding p scenario_offending by (simp add: scenario_rows_def row_get_def)
      with i have "\<exists>i\<in>set found. code i = ''spend_no_purchases'' \<and> severity i = Critical
              \<and> metrics i =
                  [(''offenders'',
                    Offenders [[(''spend'', PFloat (Fin 80)), (''purchases'', PFloat (Fin 0)),
                                (''campaign_name'', PStr ''Spring Drops''),
                                (''ad_name'', PStr ''Creative B'')]])]"
        by (intro bexI [of _ i] conjI) simp_all
      with f scenario_rows_ok show ?thesis by (intro conjI exI [of _ found])
    qed
  qed
qed

text \<open>
  C6. The predicate of the rule \<^verbatim>\<open>roas_1_2\<close> never raises: it is true exactly when the
  aggregates hold \<^verbatim>\<open>avg_roas\<close> with \<open>1.0 \<le> avg_roas \<le> 2.0\<close>, and false when the key is
  missing.  Whenever the Rule Engine returns, its findings contain one with code
  \<^verbatim>\<open>roas_1_2\<close> exactly in that case; and it does return on every summary of derived rows.
\<close>

theorem roas_rule_iff:
  "applies RoasOneToTwoRule s
     = Inr (\<exists>roas. map_of (aggregates s) ''avg_roas'' = Some roas \<and> fle (Fin 1) roas \<and> fle roas (Fin 2))
   \<and> (map_of (aggregates s) ''avg_roas'' = None \<longrightarrow> applies RoasOneToTwoRule s = Inr False)
   \<and> (\<forall>found. insight_agent [] s = Inr found \<longrightarrow>
        ((\<exists>i\<in>set found. code i = ''roas_1_2'')
          \<longleftrightarrow> (\<exists>roas. map_of (aggregates s) ''avg_roas'' = Some roas
                       \<and> fle (Fin 1) roas \<and> fle roas (Fin 2))))
   \<and> (list_all derived_row_ok (per_row s) \<longrightarrow> (\<exists>found. insight_agent [] s = Inr found))"
proof -
  have ap: "roas_applies s
     = Inr (\<exists>roas. map_of (aggregates s) ''avg_roas'' = Some roas \<and> fle (Fin 1) roas \<and> fle roas (Fin 2))"
    by (simp add: roas_applies_def agg_get_def split: option.splits)
  have 3: "(\<exists>i\<in>set found. code i = ''roas_1_2'')
          \<longleftrightarrow> (\<exists>roas. map_of (aggregates s) ''avg_roas'' = Some roas
                       \<and> fle (Fin 1) roas \<and> fle roas (Fin 2))"
    if f: "insight_agent [] s = Inr found" for found
  proof
    assume "\<exists>i\<in>set found. code i = ''roas_1_2''"
    then obtain i r where "r \<in> set default_rules" "fires s r" "build_insight r s = Inr i"
      "code i = ''roas_1_2''"
      using found_elem [OF f] by blast
    then have "r = RoasOneToTwoRule"
      using build_code [of r s i] by (intro rule_of_code(2)) simp_all
    with \<open>fires s r\<close> ap show "\<exists>roas. map_of (aggregates s) ''avg_roas'' = Some roas
                       \<and> fle (Fin 1) roas \<and> fle roas (Fin 2)"
      by (simp add: fires_def roas_rule_simps)
  next
    assume "\<exists>roas. map_of (aggregates s) ''avg_roas'' = Some roas
                       \<and> fle (Fin 1) roas \<and> fle roas (Fin 2)"
    with ap have "fires s RoasOneToTwoRule"
      by (simp add: fires_def roas_rule_simps)
    then have "\<exists>r\<in>set default_rules. fires s r \<and> build_insight r s = roas_build s"
      using rules_in_default(2) by (intro bexI [of _ RoasOneToTwoRule]) (simp_all add: roas_rule_simps)
    then have "\<lparr>code = ''roas_1_2'', label = ''ROAS between 1 and 2'', severity = Opportunity,
          metrics = [(''avg_roas'', Number (agg_get_default s ''avg_roas''))]\<rparr> \<in> set found"
      unfolding found_elem [OF f] roas_build_def .
    then show "\<exists>i\<in>set found. code i = ''roas_1_2''"
      by (rule bexI [rotated]) simp
  qed
  have 2: "map_of (aggregates s) ''avg_roas'' = None \<longrightarrow> applies RoasOneToTwoRule s = Inr False"
    by (simp add: roas_rule_simps ap)
  have 4: "list_all derived_row_ok (per_row s) \<longrightarrow> (\<exists>found. insight_agent [] s = Inr found)"
    using insight_agent_total by blast
  have 1: "applies RoasOneToTwoRule s
     = Inr (\<exists>roas. map_of (aggregates s) ''avg_roas'' = Some roas \<and> fle (Fin 1) roas \<and> fle roas (Fin 2))"
    by (simp only: roas_rule_simps ap)
  from 3 have 5: "\<forall>found. insight_agent [] s = Inr found \<longrightarrow>
        ((\<exists>i\<in>set found. code i = ''roas_1_2'')
          \<longleftrightarrow> (\<exists>roas. map_of (aggregates s) ''avg_roas'' = Some roas
                       \<and> fle (Fin 1) roas \<and> fle roas (Fin 2)))"
    by (intro allI impI)
  from 1 2 5 4 show ?thesis by (intro conjI)
qed

theorem roas_rule_iff_witness:
  "applies RoasOneToTwoRule scenario_summary = Inr True
   \<and> applies RoasOneToTwoRule (scenario_summary\<lparr>aggregates := []\<rparr>) = Inr False
   \<and> (\<exists>found. insight_agent [] scenario_summary = Inr found
         \<and> (\<exists>i\<in>set found. code i = ''roas_1_2''))"
proof -
  have a: "(\<exists>roas. map_of (aggregates scenario_summary) ''avg_roas'' = Some roas
                \<and> fle (Fin 1) roas \<and> fle roas (Fin 2)) = True"
    by (simp add: scenario_summary_def)
  have b: "map_of (aggregates (scenario_summary\<lparr>aggregates := []\<rparr>)) ''avg_roas'' = None"
    by simp
  from roas_rule_iff [of scenario_summary]
  have 1: "applies RoasOneToTwoRule scenario_summary = Inr True"
    and 2: "\<forall>found. insight_agent [] scenario_summary = Inr found \<longrightarrow>
        (\<exists>i\<in>set found. code i = ''roas_1_2'')"
    and 3: "\<exists>found. insight_agent [] scenario_summary = Inr found"
    unfolding a using scenario_rows_ok by simp_all
  have 4: "applies RoasOneToTwoRule (scenario_summary\<lparr>aggregates := []\<rparr>) = Inr False"
    using roas_rule_iff [of "scenario_summary\<lparr>aggregates := []\<rparr>"] b by simp
  from 3 obtain found where f: "insight_agent [] scenario_summary = Inr found" ..
  with 2 have "\<exists>i\<in>set found. code i = ''roas_1_2''" by (elim allE impE)
  with f have "\<exists>found. insight_agent [] scenario_summary = Inr found
         \<and> (\<exists>i\<in>set found. code i = ''roas_1_2'')"
    by (intro exI [of _ found] conjI)
  with 1 4 show ?thesis by (intro conjI)
qed

text \<open>
  C7. On a summary whose rows are derived rows, the Rule Engine returns its findings in
  the registration order \<^verbatim>\<open>roas_1_2\<close>, \<^verbatim>\<open>ctr_healthy_low_conversion\<close>,
  \<^verbatim>\<open>frequency_fatigue\<close>, \<^verbatim>\<open>ctr_drop_vs_prev7\<close>, \<^verbatim>\<open>spend_no_purchases\<close>: the codes of the
  findings are the codes of the rules that fire, one finding for each and none for the
  others.  The engine is a function of the summary, so a second evaluation returns the
  same list.
\<close>

theorem findings_in_registration_order:
  assumes "list_all derived_row_ok (per_row s)"
  shows "\<exists>found. insight_agent [] s = Inr found
     \<and> map code found = map rule_code (filter (fires s) default_rules)
     \<and> map rule_code default_rules =
         [''roas_1_2'', ''ctr_healthy_low_conversion'', ''frequency_fatigue'',
          ''ctr_drop_vs_prev7'', ''spend_no_purchases'']"
proof -
  from insight_agent_total [OF assms] obtain found where f: "insight_agent [] s = Inr found"
    by blast
  then have e: "found = concat (map (\<lambda>r. case build_insight r s of Inr i \<Rightarrow> [i] | Inl _ \<Rightarrow> [])
                          (filter (fires s) default_rules))"
    using run_rules_result [of default_rules s "[]" found]
    by (simp add: insight_agent_def agent_rules_def)
  have "\<forall>r\<in>set (filter (fires s) default_rules). \<exists>i. build_insight r s = Inr i \<and> code i = rule_code r"
    using default_rules_total [OF assms] build_code by fastforce
  from codes_of_built [OF this] e have "map code found = map rule_code (filter (fires s) default_rules)"
    by simp
  with f default_rule_codes show ?thesis by (intro exI [of _ found] conjI)
qed

theorem findings_in_registration_order_witness:
  "list_all derived_row_ok (per_row scenario_summary)
   \<and> (\<exists>found. insight_agent [] scenario_summary = Inr found
         \<and> map code found = [''roas_1_2'', ''spend_no_purchases''])"
proof -
  from findings_in_registration_order [OF scenario_rows_ok] show ?thesis
  proof (elim exE conjE)
    fix found
    assume f: "insight_agent [] scenario_summary = Inr found"
      and c: "map code found = map rule_code (filter (fires scenario_summary) default_rules)"
    from c have "map code found = [''roas_1_2'', ''spend_no_purchases'']"
      unfolding scenario_fires by (simp add: rule_code_simps)
    with f scenario_rows_ok show ?thesis by (intro conjI exI [of _ found])
  qed
qed

text \<open>
  C9 (as the code has it).  The request validation rejects an empty row sequence and
  returns a request with at least one row unchanged.  Running the engine on a raw
  mapping validates it first: with an empty row sequence the result is the validation
  error whatever the pipeline stages are, so no stage takes part, and with at least one
  row the mapping enters the pipeline.  A request object is given to the pipeline as it
  is, without a second validation; one that came out of the validation has at least one
  row and runs as its raw mapping does.
\<close>

theorem raw_payload_validated:
  "(data raw = [] \<longrightarrow>
      ensure_data raw = Inl ValidationError \<and> run e (RawMapping raw) = Inl ValidationError)
   \<and> (data raw \<noteq> [] \<longrightarrow>
      ensure_data raw = Inr raw \<and> run e (RawMapping raw) = invoke e raw)
   \<and> run e (RequestObject request) = invoke e request
   \<and> (ensure_data raw = Inr request \<longrightarrow>
      data request \<noteq> [] \<and> run e (RequestObject request) = run e (RawMapping raw))"
  by (auto simp: run_def ensure_data_def split: if_splits)

theorem raw_payload_validated_witness:
  "run (default_engine (\<lambda>found agg. Inr [])) (RawMapping \<lparr>data = [], column_hints = []\<rparr>)
     = Inl ValidationError
   \<and> ensure_data \<lparr>data = [[(''Spend'', PInt 80)]], column_hints = []\<rparr>
       = Inr \<lparr>data = [[(''Spend'', PInt 80)]], column_hints = []\<rparr>
   \<and> run (default_engine (\<lambda>found agg. Inr []))
         (RequestObject \<lparr>data = [[(''Spend'', PInt 80)]], column_hints = []\<rparr>)
       = run (default_engine (\<lambda>found agg. Inr []))
           (RawMapping \<lparr>data = [[(''Spend'', PInt 80)]], column_hints = []\<rparr>)"
  using raw_payload_validated [of "\<lparr>data = [], column_hints = []\<rparr>"
      "default_engine (\<lambda>found agg. Inr [])" "\<lparr>data = [], column_hints = []\<rparr>"]
    raw_payload_validated [of "\<lparr>data = [[(''Spend'', PInt 80)]], column_hints = []\<rparr>"
      "default_engine (\<lambda>found agg. Inr [])" "\<lparr>data = [[(''Spend'', PInt 80)]], column_hints = []\<rparr>"]
  by simp

text \<open>
  C9, the claim as stated (every request with an empty row sequence is rejected by the
  validation before any stage runs): a request object whose row sequence is empty is
  not validated by \<^verbatim>\<open>run\<close>; it enters the pipeline, and the first stage raises
  \<^verbatim>\<open>IndexError\<close> on \<^verbatim>\<open>records[0]\<close>.
\<close>

theorem request_object_not_validated_counterexample:
  "data \<lparr>data = [], column_hints = []\<rparr> = []
   \<and> run (default_engine (\<lambda>found agg. Inr [])) (RequestObject \<lparr>data = [], column_hints = []\<rparr>)
       = Inl IndexError"
  by (simp add: run_def invoke_def)

text \<open>
  C2. The operands that reach a ratio computation are floats or \<^verbatim>\<open>None\<close> (a missing
  key).  For every such pair, if the denominator is 0 or either operand is not-a-number,
  then \<^verbatim>\<open>_compute_ratio\<close> (used for \<^verbatim>\<open>atc_to_purchase\<close>), the clicks/impressions
  fallback of \<^verbatim>\<open>_compute_ctr\<close> and \<^verbatim>\<open>_compute_ctr_delta\<close> (whose numerator operand is
  \<^verbatim>\<open>ctr_7d\<close> when that is valid and \<^verbatim>\<open>ctr\<close> otherwise) all return not-a-number: no
  exception and no infinity.
\<close>

theorem ratio_not_a_number:
  assumes "ratio_operand numerator" and "ratio_operand denominator"
    and "denominator = PFloat (Fin 0) \<or> numerator = PFloat NaN \<or> denominator = PFloat NaN"
  shows "compute_ratio numerator denominator = Inr NaN
     \<and> (is_valid_number (row_get m ''ctr'') = Inr False \<and> row_get m ''clicks'' = numerator
          \<and> row_get m ''impressions'' = denominator
        \<longrightarrow> compute_ctr m = Inr NaN)
     \<and> (ratio_operand (row_get m' ''ctr_7d'')
          \<and> (if is_valid_number (row_get m' ''ctr_7d'') = Inr True then row_get m' ''ctr_7d''
               else row_get m' ''ctr'') = numerator
          \<and> row_get m' ''ctr_prev7'' = denominator
        \<longrightarrow> compute_ctr_delta m' = Inr NaN)"
proof (intro conjI impI)
  show "compute_ratio numerator denominator = Inr NaN"
    using assms by (auto simp: compute_ratio_def dest!: ratio_operand_cases)
next
  assume "is_valid_number (row_get m ''ctr'') = Inr False \<and> row_get m ''clicks'' = numerator
          \<and> row_get m ''impressions'' = denominator"
  then show "compute_ctr m = Inr NaN"
    using assms by (auto simp: compute_ctr_def Let_def dest!: ratio_operand_cases)
next
  assume a: "ratio_operand (row_get m' ''ctr_7d'')
          \<and> (if is_valid_number (row_get m' ''ctr_7d'') = Inr True then row_get m' ''ctr_7d''
               else row_get m' ''ctr'') = numerator
          \<and> row_get m' ''ctr_prev7'' = denominator"
  then have "ratio_operand (row_get m' ''ctr_7d'')" by simp
  then have "\<exists>b. is_valid_number (row_get m' ''ctr_7d'') = Inr b"
    by (auto dest!: ratio_operand_cases)
  then obtain b where b: "is_valid_number (row_get m' ''ctr_7d'') = Inr b" ..
  show "compute_ctr_delta m' = Inr NaN"
  proof (cases b)
    case True
    with a b assms show ?thesis
      by (auto simp: compute_ctr_delta_def Let_def dest!: ratio_operand_cases)
  next
    case False
    with a b assms show ?thesis
      by (auto simp: compute_ctr_delta_def Let_def dest!: ratio_operand_cases)
  qed
qed

theorem ratio_not_a_number_witness:
  "ratio_operand (PFloat (Fin 3)) \<and> ratio_operand (PFloat (Fin 0))
   \<and> compute_ratio (PFloat (Fin 3)) (PFloat (Fin 0)) = Inr NaN
   \<and> compute_ctr [''clicks'' \<mapsto> PFloat (Fin 3), ''impressions'' \<mapsto> PFloat (Fin 0)] = Inr NaN
   \<and> compute_ctr_delta [''ctr_7d'' \<mapsto> PFloat (Fin 3), ''ctr_prev7'' \<mapsto> PFloat (Fin 0)] = Inr NaN"
proof -
  have h: "ratio_operand (PFloat (Fin 3))" "ratio_operand (PFloat (Fin 0))"
    "PFloat (Fin 0) = PFloat (Fin 0) \<or> PFloat (Fin 3) = PFloat NaN \<or> PFloat (Fin 0) = PFloat NaN"
    by (simp_all add: ratio_operand_def)
  from ratio_not_a_number [OF h,
      of "[''clicks'' \<mapsto> PFloat (Fin 3), ''impressions'' \<mapsto> PFloat (Fin 0)]"
         "[''ctr_7d'' \<mapsto> PFloat (Fin 3), ''ctr_prev7'' \<mapsto> PFloat (Fin 0)]"] h(1,2)
  show ?thesis by (simp add: row_get_def ratio_operand_def)
qed

text \<open>
  C3 (as the code has it).  \<^verbatim>\<open>_to_float\<close> returns a float unchanged, converts an integer
  with \<^verbatim>\<open>float()\<close> (the nearest double, for an integer within the range of doubles; a
  boolean counts as the integer 0 or 1), parses a string after removing every \<^verbatim>\<open>%\<close> in
  it, with not-a-number when the rest is no numeral, and returns not-a-number for
  \<^verbatim>\<open>None\<close>.  On a string whose only \<^verbatim>\<open>%\<close>, if any, is its last character this is the
  coercion of the specification.  In a derived row, every mapped canonical metric
  outside the numeric set holds the raw value of its header unchanged, and every mapped
  numeric metric holds the coerced raw value (for \<^verbatim>\<open>ctr\<close>, when that value is finite,
  since the synthetic \<^verbatim>\<open>ctr\<close> replaces any other).

  The claim as stated (only a trailing \<^verbatim>\<open>%\<close> is stripped) fails on the string
  \<^verbatim>\<open>1%2\<close>: the code reads it as 12.0, the stated coercion gives not-a-number.
\<close>

theorem to_float_cases:
  "to_float (PFloat f) = Inr f
   \<and> to_float (PInt n) = float_of_int n
   \<and> (\<bar>rat_of_int n\<bar> < max_double_bound \<longrightarrow> to_float (PInt n) = Inr (round_double (of_int n)))
   \<and> to_float (PBool b) = Inr (Fin (if b then 1 else 0))
   \<and> to_float (PStr s)
       = Inr (case float_of_string (filter (\<lambda>c. c \<noteq> CHR ''%'') s) of None \<Rightarrow> NaN | Some g \<Rightarrow> g)
   \<and> (CHR ''%'' \<notin> set (butlast s) \<longrightarrow> to_float (PStr s) = Inr (spec_to_float (PStr s)))
   \<and> to_float PNone = Inr NaN
   \<and> (derive_row mapping record = Inr row \<and> c \<in> set mapping_fields
        \<and> mapping c = Some column \<and> column \<noteq> [] \<longrightarrow>
        (if c \<in> set numeric_fields
         then \<exists>g. to_float (record_get record column) = Inr g
                  \<and> (c \<noteq> ''ctr'' \<or> isfinite g \<longrightarrow> row c = Some (PFloat g))
         else row c = Some (record_get record column)))"
proof -
  have 1: "to_float (PStr s)
       = Inr (case float_of_string (filter (\<lambda>c. c \<noteq> CHR ''%'') s) of None \<Rightarrow> NaN | Some g \<Rightarrow> g)"
    by (simp add: to_float_def split: option.splits)
  have 2: "CHR ''%'' \<notin> set (butlast s) \<longrightarrow> to_float (PStr s) = Inr (spec_to_float (PStr s))"
    by (simp add: 1 spec_to_float_def filter_percent_trailing)
  have 3: "\<bar>rat_of_int n\<bar> < max_double_bound \<longrightarrow> to_float (PInt n) = Inr (round_double (of_int n))"
    by (simp add: to_float_def float_of_int_def)
  have 4: "if c \<in> set numeric_fields
         then \<exists>g. to_float (record_get record column) = Inr g
                  \<and> (c \<noteq> ''ctr'' \<or> isfinite g \<longrightarrow> row c = Some (PFloat g))
         else row c = Some (record_get record column)"
    if d: "derive_row mapping record = Inr row" and c: "c \<in> set mapping_fields"
      and col: "mapping c = Some column" "column \<noteq> []"
  proof -
    from c col have av: "c \<in> set (available_metrics mapping)"
      by (simp add: available_metrics_iff str_truthy_def)
    from derive_row_coerced_defined [OF d av] have def: "coerced record mapping c \<noteq> None" .
    from derived_ctr_aux [OF d] obtain m0 f where
      m0: "\<forall>c. m0 c = (if c \<in> set (available_metrics mapping) then coerced record mapping c else None)"
      and other: "\<forall>c. c \<in> set mapping_fields \<and> c \<noteq> ''ctr'' \<longrightarrow> row c = m0 c"
      and fl: "float_or_absent (m0 ''ctr'')" "float_or_absent (m0 ''clicks'')"
        "float_or_absent (m0 ''impressions'')"
      and ctr: "compute_ctr m0 = Inr f" "row ''ctr'' = Some (PFloat f)"
      by blast
    from m0 av have m0c: "m0 c = coerced record mapping c" by simp
    show ?thesis
    proof (cases "c \<in> set numeric_fields")
      case False
      with def col have "coerced record mapping c = Some (record_get record column)"
        by (simp add: coerced_def)
      with False other c m0c show ?thesis by (auto simp: ctr_fields)
    next
      case True
      with def col obtain g where g: "to_float (record_get record column) = Inr g"
        and cg: "coerced record mapping c = Some (PFloat g)"
        by (auto simp: coerced_def split: sum.splits)
      have "row c = Some (PFloat g)" if "c \<noteq> ''ctr'' \<or> isfinite g"
      proof (cases "c = ''ctr''")
        case False
        with other c m0c cg show ?thesis by simp
      next
        case True
        with that have "isfinite g" by simp
        then obtain x where "g = Fin x" by (cases g) simp_all
        with True m0c cg have "valid_value (m0 ''ctr'') = Some x" by simp
        with compute_ctr_cases_aux [OF fl] ctr(1) have "f = Fin x" by simp
        with ctr(2) True \<open>g = Fin x\<close> show ?thesis by simp
      qed
      with True g show ?thesis by auto
    qed
  qed
  have 5: "derive_row mapping record = Inr row \<and> c \<in> set mapping_fields
        \<and> mapping c = Some column \<and> column \<noteq> [] \<longrightarrow>
        (if c \<in> set numeric_fields
         then \<exists>g. to_float (record_get record column) = Inr g
                  \<and> (c \<noteq> ''ctr'' \<or> isfinite g \<longrightarrow> row c = Some (PFloat g))
         else row c = Some (record_get record column))"
    using 4 by blast
  have 6: "to_float (PFloat f) = Inr f" "to_float (PInt n) = float_of_int n"
    "to_float (PBool b) = Inr (Fin (if b then 1 else 0))" "to_float PNone = Inr NaN"
    by (simp_all add: to_float_def)
  from 1 2 3 5 6 show ?thesis by (intro conjI)
qed

theorem to_float_cases_witness:
  "to_float (PStr ''12%'') = Inr (Fin 12)
   \<and> to_float (PStr ''12%'') = Inr (spec_to_float (PStr ''12%''))
   \<and> to_float (PInt 12) = Inr (Fin 12)
   \<and> (\<exists>row. derive_row [''spend'' \<mapsto> ''Spend'', ''campaign_name'' \<mapsto> ''Campaign'']
                [(''Spend'', PStr ''12%''), (''Campaign'', PStr ''Spring'')] = Inr row
          \<and> row ''spend'' = Some (PFloat (Fin 12))
          \<and> row ''campaign_name'' = Some (PStr ''Spring''))"
proof -
  from spend_row_ex obtain row where
    r: "derive_row [''spend'' \<mapsto> ''Spend'', ''campaign_name'' \<mapsto> ''Campaign'']
            [(''Spend'', PStr ''12%''), (''Campaign'', PStr ''Spring'')] = Inr row" ..
  have b: "\<bar>rat_of_int 12\<bar> < max_double_bound" by (simp add: max_double_bound_def)
  have p: "CHR ''%'' \<notin> set (butlast ''12%'')" by simp
  have f: "''spend'' \<in> set mapping_fields" "''campaign_name'' \<in> set mapping_fields"
    "''spend'' \<in> set numeric_fields" "''campaign_name'' \<notin> set numeric_fields"
    by (simp_all add: mapping_fields_def numeric_fields_def)
  have s: "row ''spend'' = Some (PFloat (Fin 12))"
    using to_float_cases [of NaN 12 True "''12%''" "[''spend'' \<mapsto> ''Spend'', ''campaign_name'' \<mapsto> ''Campaign'']"
        "[(''Spend'', PStr ''12%''), (''Campaign'', PStr ''Spring'')]" row "''spend''" "''Spend''"] r f
    by (auto simp add: record_get_def fos_12)
  have c: "row ''campaign_name'' = Some (PStr ''Spring'')"
    using to_float_cases [of NaN 12 True "''12%''" "[''spend'' \<mapsto> ''Spend'', ''campaign_name'' \<mapsto> ''Campaign'']"
        "[(''Spend'', PStr ''12%''), (''Campaign'', PStr ''Spring'')]" row "''campaign_name''" "''Campaign''"] r f
    by (auto simp add: record_get_def)
  note T = to_float_cases [of NaN 12 True "''12%''" "[''spend'' \<mapsto> ''Spend'', ''campaign_name'' \<mapsto> ''Campaign'']"
        "[(''Spend'', PStr ''12%''), (''Campaign'', PStr ''Spring'')]" row "''spend''" "''Spend''"]
  from T have t1: "to_float (PStr ''12%'') = Inr (Fin 12)" by (simp add: fos_12)
  from T p have t2: "to_float (PStr ''12%'') = Inr (spec_to_float (PStr ''12%''))" by blast
  from T b have "to_float (PInt 12) = Inr (round_double (rat_of_int 12))" by blast
  then have t3: "to_float (PInt 12) = Inr (Fin 12)" by (simp add: round_double_12)
  note t = t1 t2 t3
  from r s c have "\<exists>row. derive_row [''spend'' \<mapsto> ''Spend'', ''campaign_name'' \<mapsto> ''Campaign'']
                [(''Spend'', PStr ''12%''), (''Campaign'', PStr ''Spring'')] = Inr row
          \<and> row ''spend'' = Some (PFloat (Fin 12))
          \<and> row ''campaign_name'' = Some (PStr ''Spring'')"
    by (intro exI [of _ row] conjI)
  with t show ?thesis by (intro conjI)
qed

text \<open>
  C3, the claim as stated: on the string \<^verbatim>\<open>1%2\<close> the code returns 12.0, the coercion
  of the specification returns not-a-number.
\<close>

theorem to_float_percent_counterexample:
  "to_float (PStr ''1%2'') = Inr (Fin 12) \<and> spec_to_float (PStr ''1%2'') = NaN"
  by (simp add: to_float_def spec_to_float_def strip_trailing_percent_def fos_12 fos_1p2)

text \<open>
  C4 (as the code has it).  Every derived row holds a float under \<^verbatim>\<open>ctr\<close>: the coerced
  value of the \<^verbatim>\<open>ctr\<close> column when a column resolved and that value is finite;
  otherwise the float quotient clicks/impressions when both are finite and impressions
  is not 0; otherwise not-a-number.  For a row with a valid clicks value and
  impressions above 0, this float is finite exactly when the \<^verbatim>\<open>ctr\<close> column gave a finite
  value or the quotient stays within the range of doubles, and it is the (rounded)
  quotient clicks/impressions when no column resolved for \<^verbatim>\<open>ctr\<close>.

  The claim as stated (always finite) fails when the quotient overflows: clicks
  \<open>2 ^ 1023\<close> and impressions \<open>0.25\<close>, both finite doubles, give \<^verbatim>\<open>inf\<close>.
\<close>

theorem derived_ctr_cases:
  assumes "derive_row mapping record = Inr row"
  shows "\<exists>f. row ''ctr'' = Some (PFloat f)
     \<and> f = (case valid_value (if str_truthy (mapping ''ctr'') then coerced record mapping ''ctr''
                               else None) of
              Some x \<Rightarrow> Fin x
            | None \<Rightarrow>
                (case valid_value (row ''clicks'') of
                   None \<Rightarrow> NaN
                 | Some c \<Rightarrow>
                     (case valid_value (row ''impressions'') of
                        None \<Rightarrow> NaN
                      | Some i \<Rightarrow> if i = 0 then NaN else round_double (c / i))))
     \<and> (\<forall>c i. valid_value (row ''clicks'') = Some c \<and> valid_value (row ''impressions'') = Some i
              \<and> 0 < i \<longrightarrow>
            (isfinite f \<longleftrightarrow>
               valid_value (if str_truthy (mapping ''ctr'') then coerced record mapping ''ctr''
                            else None) \<noteq> None
               \<or> \<bar>c / i\<bar> < max_double_bound)
            \<and> (\<not> str_truthy (mapping ''ctr'') \<longrightarrow> f = round_double (c / i)))"
proof -
  from derived_ctr_aux [OF assms] obtain m0 f where
    cl: "row ''clicks'' = m0 ''clicks''" "row ''impressions'' = m0 ''impressions''"
    and m0: "m0 ''ctr'' = (if str_truthy (mapping ''ctr'') then coerced record mapping ''ctr'' else None)"
    and fl: "float_or_absent (m0 ''ctr'')" "float_or_absent (m0 ''clicks'')"
        "float_or_absent (m0 ''impressions'')"
    and ctr: "compute_ctr m0 = Inr f" "row ''ctr'' = Some (PFloat f)"
    by blast
  from compute_ctr_cases_aux [OF fl] ctr(1)
  have f: "f = (case valid_value (if str_truthy (mapping ''ctr'') then coerced record mapping ''ctr''
                               else None) of
              Some x \<Rightarrow> Fin x
            | None \<Rightarrow>
                (case valid_value (row ''clicks'') of
                   None \<Rightarrow> NaN
                 | Some c \<Rightarrow>
                     (case valid_value (row ''impressions'') of
                        None \<Rightarrow> NaN
                      | Some i \<Rightarrow> if i = 0 then NaN else round_double (c / i))))"
    unfolding cl m0 by simp
  have g: "(isfinite f \<longleftrightarrow>
               valid_value (if str_truthy (mapping ''ctr'') then coerced record mapping ''ctr''
                            else None) \<noteq> None
               \<or> \<bar>c / i\<bar> < max_double_bound)
            \<and> (\<not> str_truthy (mapping ''ctr'') \<longrightarrow> f = round_double (c / i))"
    if "valid_value (row ''clicks'') = Some c \<and> valid_value (row ''impressions'') = Some i \<and> 0 < i"
    for c i
    using that unfolding f by (auto simp: round_double_finite_iff split: option.splits)
  from ctr(2) f g show ?thesis by blast
qed

theorem derived_ctr_cases_witness:
  "\<exists>row. derive_row [''clicks'' \<mapsto> ''Clicks'', ''impressions'' \<mapsto> ''Impressions'']
            [(''Clicks'', PFloat (Fin 3)), (''Impressions'', PFloat (Fin 12))] = Inr row
         \<and> row ''ctr'' = Some (PFloat (round_double (3 / 12)))
         \<and> isfinite (round_double (3 / 12))"
proof -
  from quarter_row_ex obtain row where
    r: "derive_row [''clicks'' \<mapsto> ''Clicks'', ''impressions'' \<mapsto> ''Impressions'']
            [(''Clicks'', PFloat (Fin 3)), (''Impressions'', PFloat (Fin 12))] = Inr row"
    and v: "row ''clicks'' = Some (PFloat (Fin 3))" "row ''impressions'' = Some (PFloat (Fin 12))"
    by blast
  have "row ''ctr'' = Some (PFloat (round_double (3 / 12)))"
    using derived_ctr_cases [OF r] v by (simp add: str_truthy_def)
  moreover have "isfinite (round_double (3 / 12))"
    by (simp add: round_double_finite_iff max_double_bound_def)
  ultimately show ?thesis using r by (intro exI [of _ row] conjI)
qed

text \<open>
  C4, the claim as stated: with clicks \<open>2 ^ 1023\<close> and impressions \<open>0.25\<close>, both valid, and
  no \<^verbatim>\<open>ctr\<close> column, the derived \<^verbatim>\<open>ctr\<close> is infinite.
\<close>

theorem ctr_overflow_counterexample:
  "compute_ctr [''clicks'' \<mapsto> PFloat (Fin (2 ^ 1023)), ''impressions'' \<mapsto> PFloat (Fin (1 / 4))]
     = Inr PosInf
   \<and> (case derive_row [''clicks'' \<mapsto> ''Clicks'', ''impressions'' \<mapsto> ''Impressions'']
           [(''Clicks'', PFloat (Fin (2 ^ 1023))), (''Impressions'', PFloat (Fin (1 / 4)))] of
      Inl e \<Rightarrow> None | Inr row \<Rightarrow> Some (row ''clicks'', row ''impressions'', row ''ctr''))
   = Some (Some (PFloat (Fin (2 ^ 1023))), Some (PFloat (Fin (1 / 4))), Some (PFloat PosInf))
   \<and> \<not> isfinite PosInf"
  by (simp add: derive_row_def available_metrics_def mapping_fields_def str_truthy_def
      coerce_metric_def resolve_def record_get_def numeric_fields_def to_float_def
      compute_ctr_def compute_ratio_def compute_ctr_delta_def row_get_def Let_def
      float_quotient_def fdiv_def round_double_def max_double_bound_def)

text \<open>
  C5. For every sequence of derived rows (fewer than the largest double, so that the
  count converts to a float), the aggregation returns a summary that holds
  \<^verbatim>\<open>total_<field>\<close> for each of the six total fields, equal to the float sum of the valid
  values of the field over the rows, and \<^verbatim>\<open>avg_<field>\<close> for each of the seven average
  fields, equal to the float mean of the valid values: the float sum divided by the
  count.  A key is missing exactly when no row has a valid value for it, the division
  is never by a zero count, and the summary holds no other key.
\<close>

theorem aggregate_totals_and_means:
  assumes "list_all derived_row_ok rows" and "rat_of_nat (length rows) < max_double_bound"
  shows "\<exists>agg. aggregate rows = Inr agg
     \<and> (\<forall>f\<in>set total_metrics. map_of agg (''total_'' @ f)
           = (if valid_values rows f = [] then None else Some (fsum (valid_values rows f))))
     \<and> (\<forall>f\<in>set average_metrics.
           if valid_values rows f = [] then map_of agg (''avg_'' @ f) = None
           else \<exists>q. fmean (valid_values rows f) = Inr q \<and> map_of agg (''avg_'' @ f) = Some q)
     \<and> (\<forall>k. k \<notin> total_keys \<union> average_keys \<longrightarrow> map_of agg k = None)"
proof -
  from aggregate_state [OF assms(1)] obtain sd' cd' where
    r: "foldl_err aggregate_row ([], []) rows = Inr (sd', cd')"
    and t: "\<forall>f\<in>set total_metrics. map_of sd' (''total_'' @ f)
           = (if valid_values rows f = [] then None else Some (fsum (valid_values rows f)))"
    and a: "\<forall>f\<in>set average_metrics. map_of sd' (''avg_'' @ f)
           = (if valid_values rows f = [] then None else Some (fsum (valid_values rows f)))"
    and c: "\<forall>f\<in>set average_metrics. map_of cd' (''avg_'' @ f)
           = (if valid_values rows f = [] then None else Some (length (valid_values rows f)))"
    and os: "\<forall>k. k \<notin> total_keys \<union> average_keys \<longrightarrow> map_of sd' k = None"
    and oc: "\<forall>k. k \<notin> average_keys \<longrightarrow> map_of cd' k = None"
    and d: "distinct (map fst cd')"
    by blast
  have pre: "\<forall>(k, n)\<in>set cd'. n \<noteq> 0 \<and> rat_of_nat n < max_double_bound \<and> map_of sd' k \<noteq> None"
  proof (clarify, intro conjI)
    fix k n assume "(k, n) \<in> set cd'"
    with d have kn: "map_of cd' k = Some n" by (rule map_of_is_SomeI)
    with oc have "k \<in> average_keys" by (cases "k \<in> average_keys") auto
    then obtain f where f: "f \<in> set average_metrics" "k = ''avg_'' @ f"
      by (auto simp: average_keys_def)
    with c kn have v: "valid_values rows f \<noteq> []" "n = length (valid_values rows f)"
      by (auto split: if_splits)
    then show "n \<noteq> 0" by simp
    from v length_valid_values [of rows f] have "n \<le> length rows" by simp
    then have "rat_of_nat n \<le> rat_of_nat (length rows)" by simp
    with assms(2) show "rat_of_nat n < max_double_bound" by simp
    from a f v show "map_of sd' k \<noteq> None" by simp
  qed
  from divide_pass [OF d pre] obtain agg where
    g: "foldl_err divide_by_count sd' cd' = Inr agg"
    and m: "\<forall>k. map_of agg k =
           (case map_of cd' k of
              None \<Rightarrow> map_of sd' k
            | Some c \<Rightarrow>
                (case map_of sd' k of
                   None \<Rightarrow> None
                 | Some s \<Rightarrow>
                     (case fdiv s (round_double (of_nat c)) of
                        Inl _ \<Rightarrow> None
                      | Inr q \<Rightarrow> Some q)))"
    by blast
  have res: "aggregate rows = Inr agg" by (simp add: aggregate_def r g)
  have 1: "map_of agg (''total_'' @ f)
           = (if valid_values rows f = [] then None else Some (fsum (valid_values rows f)))"
    if "f \<in> set total_metrics" for f
  proof -
    from that have "''total_'' @ f \<in> total_keys" by (simp add: total_keys_def)
    then have "''total_'' @ f \<notin> average_keys" using keys_disjoint by blast
    with oc have "map_of cd' (''total_'' @ f) = None" by simp
    with m have "map_of agg (''total_'' @ f) = map_of sd' (''total_'' @ f)" by simp
    with t that show ?thesis by simp
  qed
  have 2: "if valid_values rows f = [] then map_of agg (''avg_'' @ f) = None
           else \<exists>q. fmean (valid_values rows f) = Inr q \<and> map_of agg (''avg_'' @ f) = Some q"
    if "f \<in> set average_metrics" for f
  proof (cases "valid_values rows f = []")
    case True
    with c that have "map_of cd' (''avg_'' @ f) = None" by simp
    with m have "map_of agg (''avg_'' @ f) = map_of sd' (''avg_'' @ f)" by simp
    with a that True show ?thesis by simp
  next
    case False
    with c that have cn: "map_of cd' (''avg_'' @ f) = Some (length (valid_values rows f))" by simp
    from a that False have sn: "map_of sd' (''avg_'' @ f) = Some (fsum (valid_values rows f))"
      by simp
    from False have n0: "length (valid_values rows f) \<noteq> 0" by simp
    from length_valid_values [of rows f]
    have "rat_of_nat (length (valid_values rows f)) \<le> rat_of_nat (length rows)" by simp
    with assms(2) have "rat_of_nat (length (valid_values rows f)) < max_double_bound" by simp
    from fdiv_by_count [OF n0 this, of "fsum (valid_values rows f)"] obtain q where
      q: "fmean (valid_values rows f) = Inr q" unfolding fmean_def by blast
    from m have "map_of agg (''avg_'' @ f) =
           (case map_of cd' (''avg_'' @ f) of
              None \<Rightarrow> map_of sd' (''avg_'' @ f)
            | Some c \<Rightarrow>
                (case map_of sd' (''avg_'' @ f) of
                   None \<Rightarrow> None
                 | Some s \<Rightarrow>
                     (case fdiv s (round_double (of_nat c)) of
                        Inl _ \<Rightarrow> None
                      | Inr q \<Rightarrow> Some q)))" by (rule spec)
    then have "map_of agg (''avg_'' @ f) = Some q"
      unfolding cn sn using q by (simp add: fmean_def)
    with q False show ?thesis by simp
  qed
  have 3: "map_of agg k = None" if "k \<notin> total_keys \<union> average_keys" for k
  proof -
    from that oc have "map_of cd' k = None" by simp
    with m have "map_of agg k = map_of sd' k" by simp
    with os that show ?thesis by simp
  qed
  from res 1 2 3 show ?thesis by blast
qed

theorem aggregate_totals_and_means_witness:
  "list_all derived_row_ok aggregate_example
   \<and> rat_of_nat (length aggregate_example) < max_double_bound
   \<and> (\<exists>agg. aggregate aggregate_example = Inr agg
         \<and> map_of agg ''total_spend'' = Some (Fin 230)
         \<and> map_of agg ''avg_roas'' = Some (Fin 2)
         \<and> map_of agg ''total_clicks'' = None
         \<and> map_of agg ''avg_ctr'' = None)"
proof -
  from aggregate_totals_and_means [OF aggregate_example_ok] obtain agg where
    r: "aggregate aggregate_example = Inr agg"
    and t: "\<forall>f\<in>set total_metrics. map_of agg (''total_'' @ f)
           = (if valid_values aggregate_example f = [] then None
              else Some (fsum (valid_values aggregate_example f)))"
    and a: "\<forall>f\<in>set average_metrics.
           if valid_values aggregate_example f = [] then map_of agg (''avg_'' @ f) = None
           else \<exists>q. fmean (valid_values aggregate_example f) = Inr q
                    \<and> map_of agg (''avg_'' @ f) = Some q"
    by blast
  have m: "''spend'' \<in> set total_metrics" "''clicks'' \<in> set total_metrics"
    "''roas'' \<in> set average_metrics" "''ctr'' \<in> set average_metrics"
    by (simp_all add: total_metrics_def average_metrics_def)
  from t m(1) have 1: "map_of agg ''total_spend'' = Some (Fin 230)"
    by (auto simp: aggregate_example_values aggregate_example_sums)
  from t m(2) have 2: "map_of agg ''total_clicks'' = None"
    by (auto simp: aggregate_example_values)
  from a m(3) have 3: "map_of agg ''avg_roas'' = Some (Fin 2)"
    by (auto simp: aggregate_example_values aggregate_example_sums)
  from a m(4) have 4: "map_of agg ''avg_ctr'' = None"
    by (auto simp: aggregate_example_values)
  from r 1 2 3 4 have "\<exists>agg. aggregate aggregate_example = Inr agg
         \<and> map_of agg ''total_spend'' = Some (Fin 230)
         \<and> map_of agg ''avg_roas'' = Some (Fin 2)
         \<and> map_of agg ''total_clicks'' = None
         \<and> map_of agg ''avg_ctr'' = None"
    by (intro exI [of _ agg] conjI)
  with aggregate_example_ok show ?thesis by (intro conjI)
qed



end
